theory Spec2Isabelle
  imports Complex_Main "HOL-Library.Sublist"
begin

section \<open>Python values used by cli.py\<close>

text \<open>
  A Python \<open>str\<close> is a sequence of Unicode code points, so it is modelled as a list of
  code points (\<open>nat\<close>): the replacement glyph U+2192 is the single element \<open>8594\<close>, and
  \<open>strip\<close> sees the non-ASCII white space that Python strips.  \<open>u\<close> embeds an ASCII
  literal.

  The times of a segment are Python floats, as Whisper returns them.  A float is an
  IEEE 754 binary64 number: a finite one is modelled by the rational number it denotes
  (\<open>Finite\<close>; the two zeros are one value, which no operation of \<open>format_timestamp\<close>
  tells apart), the others are \<open>PosInf\<close>, \<open>NegInf\<close> and \<open>NaN\<close>.
\<close>

type_synonym pystr = "nat list"

definition u :: "string \<Rightarrow> pystr" where
  "u s = map of_char s"

definition nl :: pystr where
  "nl = [10]"

definition arrow :: pystr where
  "arrow = [8594]"

datatype error =
  KeyError | TypeError | AttributeError | ValueError | NameError | WhisperError

datatype pyfloat = Finite rat | PosInf | NegInf | NaN

datatype pyval = Float pyfloat | Str pystr

text \<open>A segment is a dict; only string keys are looked up.\<close>

type_synonym segment = "string \<Rightarrow> pyval option"

definition getitem :: "segment \<Rightarrow> string \<Rightarrow> error + pyval" where
  "getitem d k = (case d k of None \<Rightarrow> Inl KeyError | Some v \<Rightarrow> Inr v)"

definition mk_segment :: "rat \<Rightarrow> rat \<Rightarrow> pystr \<Rightarrow> segment" where
  "mk_segment s e t =
     [''start'' \<mapsto> Float (Finite s), ''end'' \<mapsto> Float (Finite e), ''text'' \<mapsto> Str t]"

subsection \<open>Binary64 arithmetic\<close>

text \<open>
  An arithmetic operation on floats returns the double nearest to the exact result, a
  tie going to the double with the even significand.  \<open>fl x\<close> is that double: the
  doubles around \<open>x \<noteq> 0\<close> are the integer multiples of \<open>2 powi ulp_exp x\<close>, where
  \<open>ulp_exp x\<close> is the exponent of the binade of \<open>x\<close> less 52, and never below -1074
  (the subnormal range).  \<open>ilog2 x\<close> is the exponent of the binade of \<open>x > 0\<close>, the
  integer \<open>k\<close> with \<open>2 powi k \<le> x < 2 powi (k + 1)\<close>, read off the bit length of an
  integer.  A rational number is a double when rounding leaves it as it is and its
  magnitude is below \<open>2 ^ 1024\<close>.

  Overflow is not part of \<open>fl\<close>: on a finite argument no operation of
  \<open>format_timestamp\<close> leaves the finite range (\<open>seconds - fmod(seconds, 3600)\<close> has at
  most the magnitude of \<open>seconds\<close>, the quotients are smaller still, the remainders
  are below 3600 and the product is below 1000).
\<close>

fun bit_length :: "nat \<Rightarrow> nat" where
  "bit_length n = (if n = 0 then 0 else Suc (bit_length (n div 2)))"

declare bit_length.simps [simp del]

definition ilog2 :: "rat \<Rightarrow> int" where
  "ilog2 x =
     (if 1 \<le> x then int (bit_length (nat \<lfloor>x\<rfloor>)) - 1
      else - int (bit_length (nat (\<lceil>1 / x\<rceil> - 1))))"

definition round_half_even :: "rat \<Rightarrow> int" where
  "round_half_even y =
     (if y - of_int \<lfloor>y\<rfloor> < 1 / 2 then \<lfloor>y\<rfloor>
      else if 1 / 2 < y - of_int \<lfloor>y\<rfloor> then \<lfloor>y\<rfloor> + 1
      else if even \<lfloor>y\<rfloor> then \<lfloor>y\<rfloor> else \<lfloor>y\<rfloor> + 1)"

definition ulp_exp :: "rat \<Rightarrow> int" where
  "ulp_exp x = max (- 1074) (ilog2 \<bar>x\<bar> - 52)"

definition fl :: "rat \<Rightarrow> rat" where
  "fl x =
     (if x = 0 then 0
      else of_int (round_half_even (x / 2 powi ulp_exp x)) * 2 powi ulp_exp x)"

definition is_double :: "rat \<Rightarrow> bool" where
  "is_double x = (fl x = x \<and> \<bar>x\<bar> < 2 ^ 1024)"

subsection \<open>Float operators\<close>

text \<open>
  \<open>int(x)\<close> truncates towards zero.  \<open>%\<close> and \<open>//\<close> on floats are CPython's \<open>float_rem\<close>
  and \<open>float_floor_div\<close>.  Both start from C's \<open>fmod\<close>, which is exact: it returns
  the dividend less the divisor times the truncated quotient, a value with the sign of
  the dividend.  \<open>%\<close> adds the divisor to a non-zero remainder whose sign is not the
  divisor's.  \<open>//\<close> divides \<open>vx - mod\<close> by the divisor, takes one off where \<open>%\<close> adds
  the divisor, and snaps the quotient to an integer: its floor, or one more when the
  quotient lies more than a half above its floor.  Every operation but \<open>fmod\<close> and
  \<open>floor\<close> rounds.  The divisors of \<open>format_timestamp\<close> are the constants 3600 and 60,
  so ZeroDivisionError does not occur.
\<close>

definition py_int :: "rat \<Rightarrow> int" where
  "py_int x = (if 0 \<le> x then \<lfloor>x\<rfloor> else \<lceil>x\<rceil>)"

definition c_fmod :: "rat \<Rightarrow> rat \<Rightarrow> rat" where
  "c_fmod x y = x - y * of_int (py_int (x / y))"

definition float_rem :: "rat \<Rightarrow> rat \<Rightarrow> rat" where
  "float_rem vx wx =
     (let m = c_fmod vx wx in
      if m \<noteq> 0 \<and> (wx < 0) \<noteq> (m < 0) then fl (m + wx) else m)"

definition float_floor_div :: "rat \<Rightarrow> rat \<Rightarrow> rat" where
  "float_floor_div vx wx =
     (let m = c_fmod vx wx;
          d0 = fl (fl (vx - m) / wx);
          d = (if m \<noteq> 0 \<and> (wx < 0) \<noteq> (m < 0) then fl (d0 - 1) else d0)
      in if d \<noteq> 0 then
           (if 1 / 2 < fl (d - of_int \<lfloor>d\<rfloor>) then fl (of_int \<lfloor>d\<rfloor> + 1)
            else of_int \<lfloor>d\<rfloor>)
         else 0)"

subsection \<open>Integer formatting: \<open>str(i)\<close> and the format spec \<open>0wd\<close>\<close>

fun digits :: "nat \<Rightarrow> pystr" where
  "digits n = (if n < 10 then [48 + n] else digits (n div 10) @ [48 + n mod 10])"

declare digits.simps [simp del]

definition zfill :: "nat \<Rightarrow> pystr \<Rightarrow> pystr" where
  "zfill w ds = replicate (w - length ds) 48 @ ds"

definition py_str_int :: "int \<Rightarrow> pystr" where
  "py_str_int n = (if n < 0 then 45 # digits (nat (- n)) else digits (nat n))"

text \<open>The sign takes one column of the width; the zeros go between sign and digits.\<close>

definition fmt_0d :: "nat \<Rightarrow> int \<Rightarrow> pystr" where
  "fmt_0d w n =
     (if n < 0 then 45 # zfill (w - 1) (digits (nat (- n))) else zfill w (digits (nat n)))"

subsection \<open>\<open>str.strip()\<close> and \<open>str.replace(old, new)\<close>\<close>

definition py_isspace :: "nat \<Rightarrow> bool" where
  "py_isspace c =
     ((9 \<le> c \<and> c \<le> 13) \<or> (28 \<le> c \<and> c \<le> 32) \<or> c = 133 \<or> c = 160 \<or> c = 5760 \<or>
      (8192 \<le> c \<and> c \<le> 8202) \<or> c = 8232 \<or> c = 8233 \<or> c = 8239 \<or> c = 8287 \<or> c = 12288)"

definition py_strip :: "pystr \<Rightarrow> pystr" where
  "py_strip s = rev (dropWhile py_isspace (rev (dropWhile py_isspace s)))"

text \<open>
  \<open>replace\<close> scans from the left and replaces non-overlapping occurrences; with an empty
  pattern it puts \<open>new\<close> before every character and at the end.
\<close>

function py_replace :: "'a list \<Rightarrow> 'a list \<Rightarrow> 'a list \<Rightarrow> 'a list" where
  "py_replace old new s =
     (if old = [] then new @ concat (map (\<lambda>c. c # new) s)
      else if s = [] then []
      else if prefix old s then new @ py_replace old new (drop (length old) s)
      else hd s # py_replace old new (tl s))"
  by pat_completeness auto
termination
  by (relation "measure (\<lambda>(old, new, s). length s)") auto

declare py_replace.simps [simp del]

section \<open>write_srt\<close>

text \<open>
  The locals of \<open>format_timestamp\<close> on a finite float, in the order of the source, and
  the string it returns.  \<open>int(seconds)\<close> is an integer that is itself a double, so
  converting it back to a float for the subtraction changes nothing; the difference
  and the product by 1000 are rounded.
\<close>

definition ts_hours :: "rat \<Rightarrow> int" where
  "ts_hours seconds = py_int (float_floor_div seconds 3600)"

definition ts_minutes :: "rat \<Rightarrow> int" where
  "ts_minutes seconds = py_int (float_floor_div (float_rem seconds 3600) 60)"

definition ts_secs :: "rat \<Rightarrow> int" where
  "ts_secs seconds = py_int (float_rem seconds 60)"

definition ts_milliseconds :: "rat \<Rightarrow> int" where
  "ts_milliseconds seconds = py_int (fl (fl (seconds - of_int (py_int seconds)) * 1000))"

definition timestamp_str :: "rat \<Rightarrow> pystr" where
  "timestamp_str seconds =
     fmt_0d 2 (ts_hours seconds) @ u '':'' @ fmt_0d 2 (ts_minutes seconds) @ u '':'' @
     fmt_0d 2 (ts_secs seconds) @ u '','' @ fmt_0d 3 (ts_milliseconds seconds)"

text \<open>
  On an infinity or a NaN \<open>fmod\<close> returns NaN, so \<open>seconds // 3600\<close> is NaN and the
  \<open>int\<close> of the first line raises ValueError.
\<close>

definition format_timestamp :: "pyfloat \<Rightarrow> error + pystr" where
  "format_timestamp seconds =
     (case seconds of
        Finite x \<Rightarrow> Inr (timestamp_str x)
      | PosInf \<Rightarrow> Inl ValueError
      | NegInf \<Rightarrow> Inl ValueError
      | NaN \<Rightarrow> Inl ValueError)"

text \<open>\<open>format_timestamp(segment[k])\<close>: a string there makes \<open>//\<close> raise TypeError.\<close>

definition timestamp_of :: "pyval \<Rightarrow> error + pystr" where
  "timestamp_of v = (case v of Float x \<Rightarrow> format_timestamp x | Str _ \<Rightarrow> Inl TypeError)"

definition sanitize :: "pystr \<Rightarrow> pystr" where
  "sanitize t = py_replace (u ''-->'') arrow (py_strip t)"

text \<open>\<open>segment['text'].strip().replace('-->', ...)\<close>: a float has no \<open>strip\<close>.\<close>

definition text_of :: "pyval \<Rightarrow> error + pystr" where
  "text_of v = (case v of Str t \<Rightarrow> Inr (sanitize t) | Float _ \<Rightarrow> Inl AttributeError)"

text \<open>
  The sink is the list of the strings passed to \<open>file.write\<close>, oldest first; its
  contents are their concatenation.  Writes themselves do not fail in this model.
\<close>

type_synonym sink = "pystr list"

definition file_write :: "pystr \<Rightarrow> sink \<Rightarrow> sink" where
  "file_write s file = file @ [s]"

definition contents :: "sink \<Rightarrow> pystr" where
  "contents file = concat file"

text \<open>An expression that raises ends the evaluation of everything after it.\<close>

definition and_then :: "error + 'a \<Rightarrow> ('a \<Rightarrow> error + 'b) \<Rightarrow> error + 'b" where
  "and_then r k = (case r of Inl e \<Rightarrow> Inl e | Inr v \<Rightarrow> k v)"

text \<open>
  One iteration of the loop.  Everything that can raise is evaluated before the first of
  the three writes, so an iteration that raises leaves the sink as it found it.
\<close>

definition loop_locals :: "segment \<Rightarrow> error + pystr \<times> pystr \<times> pystr" where
  "loop_locals segment =
     and_then (getitem segment ''start'') (\<lambda>sv.
     and_then (timestamp_of sv) (\<lambda>start.
     and_then (getitem segment ''end'') (\<lambda>ev.
     and_then (timestamp_of ev) (\<lambda>end'.
     and_then (getitem segment ''text'') (\<lambda>tv.
     and_then (text_of tv) (\<lambda>text.
       Inr (start, end', text)))))))"

definition loop_body :: "int \<Rightarrow> segment \<Rightarrow> sink \<Rightarrow> (error + unit) \<times> sink" where
  "loop_body i segment file =
     (case loop_locals segment of
        Inl e \<Rightarrow> (Inl e, file)
      | Inr (start, end', text) \<Rightarrow>
          (Inr (),
           file_write (text @ nl @ nl)
             (file_write (start @ u '' --> '' @ end' @ nl)
               (file_write (py_str_int i @ nl) file))))"

fun write_srt_from :: "int \<Rightarrow> segment list \<Rightarrow> sink \<Rightarrow> (error + unit) \<times> sink" where
  "write_srt_from i [] file = (Inr (), file)"
| "write_srt_from i (segment # rest) file =
     (case loop_body i segment file of
        (Inl e, file') \<Rightarrow> (Inl e, file')
      | (Inr _, file') \<Rightarrow> write_srt_from (i + 1) rest file')"

definition write_srt :: "segment list \<Rightarrow> sink \<Rightarrow> (error + unit) \<times> sink" where
  "write_srt segments file = write_srt_from 1 segments file"

section \<open>The command line: main and the functions it calls\<close>

text \<open>
  \<open>args\<close> is the namespace \<open>parse_args\<close> returns (an invocation argparse rejects ends
  in argparse, before any code of \<open>main\<close> below it).  \<open>world\<close> fixes what the operating
  system and the two libraries answer during one run: whether directories and the
  input exist, what \<open>ffmpeg.probe\<close> reports (\<open>None\<close>: it raises \<open>ffmpeg.Error\<close>;
  otherwise the \<open>codec_type\<close> of each stream), whether Whisper loads and what it
  transcribes (\<open>None\<close>: it raises), and whether ffmpeg ends with return code 0.  The input file
  does not change during a run, so both probes see the same streams.  Creating
  directories and opening the subtitle file succeed.
\<close>

record args =
  arg_input_file :: string
  arg_output_path :: string
  arg_extract_subtitles :: bool
  arg_audio_to_video :: bool
  arg_audio_to_video_with_subtitles :: bool
  arg_combine :: bool
  arg_subtitle_output_path :: string
  arg_model :: string
  arg_language :: "string option"
  arg_task :: string
  arg_verbose :: bool

record world =
  assets_dir_exists :: bool
  input_is_file :: bool
  probe :: "string option list option"
  load_model_ok :: bool
  transcribe :: "segment list option"
  subtitle_dir_exists :: bool
  output_dir_exists :: bool
  ffmpeg_run_ok :: bool

datatype directory = AssetsDir | SubtitleDir | OutputDir

datatype msg =
    MsgFileMissing | MsgProbeError | MsgNoAudioSubtitles | MsgLoadingModel
  | MsgStartingTranscription | MsgSubtitlesSaved | MsgNoAudioVideo | MsgTransforming
  | MsgProgress nat | MsgVideoGenerated | MsgExtractionStart
  | MsgExtractionDone | MsgAudioToVideoStart | MsgAudioToVideoDone | MsgNoSubtitlesAbort
  | MsgWithSubtitlesStart | MsgWithSubtitlesDone

datatype event =
    Print msg | MakeDirs directory | Probed | ModelLoaded | Transcribed
  | SrtFile sink | FfmpegRun | VideoProduced

text \<open>
  A call returns a value, or leaves through \<open>sys.exit(n)\<close>, or through an exception
  nothing catches; with it come the events it caused, oldest first.
\<close>

datatype 'a res = Ret 'a | Exit int | Raise error

type_synonym 'a run = "event list \<times> 'a res"

definition seq :: "'a run \<Rightarrow> ('a \<Rightarrow> 'b run) \<Rightarrow> 'b run" where
  "seq m k =
     (case m of
        (evs, Ret v) \<Rightarrow> (case k v of (evs', r) \<Rightarrow> (evs @ evs', r))
      | (evs, Exit n) \<Rightarrow> (evs, Exit n)
      | (evs, Raise e) \<Rightarrow> (evs, Raise e))"

definition say :: "bool \<Rightarrow> msg list \<Rightarrow> unit run" where
  "say verbose ms = (if verbose then map Print ms else [], Ret ())"

definition makedirs_unless :: "bool \<Rightarrow> directory \<Rightarrow> unit run" where
  "makedirs_unless exists d = (if exists then [] else [MakeDirs d], Ret ())"

text \<open>The path of the subtitle file, kept symbolic: directory and input file name.\<close>

datatype srt_path = SrtPath string string

definition create_assets_directory :: "world \<Rightarrow> unit run" where
  "create_assets_directory w = makedirs_unless (assets_dir_exists w) AssetsDir"

definition check_file_exists :: "world \<Rightarrow> unit run" where
  "check_file_exists w =
     (if \<not> input_is_file w then ([Print MsgFileMissing], Exit 1) else ([], Ret ()))"

fun any_audio :: "string option list \<Rightarrow> bool" where
  "any_audio [] = False"
| "any_audio (stream # streams) =
     (if stream = Some ''audio'' then True else any_audio streams)"

definition has_audio_stream :: "world \<Rightarrow> bool run" where
  "has_audio_stream w =
     (case probe w of
        None \<Rightarrow> ([Probed, Print MsgProbeError], Exit 1)
      | Some streams \<Rightarrow> ([Probed], Ret (any_audio streams)))"

definition load_model :: "world \<Rightarrow> unit run" where
  "load_model w = ([ModelLoaded], if load_model_ok w then Ret () else Raise WhisperError)"

definition model_transcribe :: "world \<Rightarrow> segment list run" where
  "model_transcribe w =
     ([Transcribed], case transcribe w of None \<Rightarrow> Raise WhisperError | Some segs \<Rightarrow> Ret segs)"

definition write_srt_file :: "segment list \<Rightarrow> unit run" where
  "write_srt_file segments =
     (case write_srt segments [] of
        (Inl e, f) \<Rightarrow> ([SrtFile f], Raise e)
      | (Inr _, f) \<Rightarrow> ([SrtFile f], Ret ()))"

definition extract_subtitles :: "args \<Rightarrow> world \<Rightarrow> srt_path option run" where
  "extract_subtitles a w =
     seq (has_audio_stream w) (\<lambda>has_audio.
       if \<not> has_audio then ([Print MsgNoAudioSubtitles], Ret None)
       else
         seq (load_model w) (\<lambda>_.
         seq (say (arg_verbose a) [MsgLoadingModel, MsgStartingTranscription]) (\<lambda>_.
         seq (model_transcribe w) (\<lambda>segments.
         seq (makedirs_unless (subtitle_dir_exists w) SubtitleDir) (\<lambda>_.
         seq (write_srt_file segments) (\<lambda>_.
         seq (say (arg_verbose a) [MsgSubtitlesSaved]) (\<lambda>_.
           ([], Ret (Some (SrtPath (arg_subtitle_output_path a) (arg_input_file a)))))))))))"

text \<open>
  \<open>run()\<close> is called without \<open>capture_stderr\<close>, so the \<open>ffmpeg.Error\<close> it raises on a
  non-zero return code of ffmpeg carries \<open>stderr = None\<close>.  The handler evaluates
  \<open>e.stderr.decode()\<close> to build its message, which raises AttributeError before
  \<open>print\<close> and \<open>sys.exit(1)\<close> are reached; nothing catches it.
\<close>

definition ffmpeg_run :: "world \<Rightarrow> unit run" where
  "ffmpeg_run w =
     (if ffmpeg_run_ok w then ([FfmpegRun, VideoProduced], Ret ())
      else ([FfmpegRun], Raise AttributeError))"

definition transform_audio_to_video_with_subtitles ::
    "args \<Rightarrow> srt_path \<Rightarrow> world \<Rightarrow> unit run" where
  "transform_audio_to_video_with_subtitles a srt_file w =
     seq (has_audio_stream w) (\<lambda>has_audio.
       if \<not> has_audio then ([Print MsgNoAudioVideo], Ret ())
       else
         seq (makedirs_unless (output_dir_exists w) OutputDir) (\<lambda>_.
         seq (say (arg_verbose a) [MsgTransforming]) (\<lambda>_.
         seq (map (\<lambda>i. Print (MsgProgress (i + 1))) [0..<100], Ret ()) (\<lambda>_.
         seq (ffmpeg_run w) (\<lambda>_.
           say (arg_verbose a) [MsgVideoGenerated])))))"

text \<open>
  No \<open>def\<close>, assignment or import of the module binds the name
  \<open>transform_audio_to_video\<close>, so evaluating the call raises NameError before any
  argument is looked at.
\<close>

definition transform_audio_to_video :: "unit run" where
  "transform_audio_to_video = ([], Raise NameError)"

definition main_extract :: "args \<Rightarrow> world \<Rightarrow> srt_path option run" where
  "main_extract a w =
     (if arg_extract_subtitles a \<or> arg_combine a \<or> arg_audio_to_video_with_subtitles a then
        seq (say (arg_verbose a) [MsgExtractionStart]) (\<lambda>_.
        seq (extract_subtitles a w) (\<lambda>srt_file.
        seq (say (arg_verbose a) [MsgExtractionDone]) (\<lambda>_.
          ([], Ret srt_file))))
      else ([], Ret None))"

definition main_audio_to_video :: "args \<Rightarrow> unit run" where
  "main_audio_to_video a =
     (if arg_audio_to_video a \<or> arg_combine a then
        seq (say (arg_verbose a) [MsgAudioToVideoStart]) (\<lambda>_.
        seq transform_audio_to_video (\<lambda>_.
          say (arg_verbose a) [MsgAudioToVideoDone]))
      else ([], Ret ()))"

definition main_with_subtitles :: "args \<Rightarrow> srt_path option \<Rightarrow> world \<Rightarrow> unit run" where
  "main_with_subtitles a srt_file w =
     (if arg_audio_to_video_with_subtitles a then
        (case srt_file of
           None \<Rightarrow> ([Print MsgNoSubtitlesAbort], Exit 1)
         | Some srt \<Rightarrow>
             seq (say (arg_verbose a) [MsgWithSubtitlesStart]) (\<lambda>_.
             seq (transform_audio_to_video_with_subtitles a srt w) (\<lambda>_.
               say (arg_verbose a) [MsgWithSubtitlesDone])))
      else ([], Ret ()))"

definition main :: "args \<Rightarrow> world \<Rightarrow> unit run" where
  "main a w =
     seq (create_assets_directory w) (\<lambda>_.
     seq (check_file_exists w) (\<lambda>_.
     seq (main_extract a w) (\<lambda>srt_file.
     seq (main_audio_to_video a) (\<lambda>_.
       main_with_subtitles a srt_file w))))"

text \<open>
  The exit status of the process: 0 when \<open>main\<close> returns, the argument of \<open>sys.exit\<close>,
  and 1 when the interpreter ends on an uncaught exception.
\<close>

definition exit_status :: "unit run \<Rightarrow> int" where
  "exit_status r = (case snd r of Ret _ \<Rightarrow> 0 | Exit n \<Rightarrow> n | Raise _ \<Rightarrow> 1)"

definition events :: "'a run \<Rightarrow> event list" where
  "events r = fst r"

definition returned :: "'a run \<Rightarrow> bool" where
  "returned r = (case snd r of Ret _ \<Rightarrow> True | _ \<Rightarrow> False)"

text \<open>The conditions the specification's exit-code rule speaks about.\<close>

definition audio_requested :: "args \<Rightarrow> bool" where
  "audio_requested a =
     (arg_extract_subtitles a \<or> arg_audio_to_video a \<or>
      arg_audio_to_video_with_subtitles a \<or> arg_combine a)"

definition lacks_audio :: "world \<Rightarrow> bool" where
  "lacks_audio w = (case probe w of None \<Rightarrow> False | Some streams \<Rightarrow> \<not> any_audio streams)"

definition has_audio :: "world \<Rightarrow> bool" where
  "has_audio w = (case probe w of None \<Rightarrow> False | Some streams \<Rightarrow> any_audio streams)"

definition probe_fails :: "world \<Rightarrow> bool" where
  "probe_fails w = (probe w = None)"

definition extraction_requested :: "args \<Rightarrow> bool" where
  "extraction_requested a =
     (arg_extract_subtitles a \<or> arg_combine a \<or> arg_audio_to_video_with_subtitles a)"

text \<open>Whisper raises, or a segment it returned makes \<open>write_srt\<close> raise.\<close>

definition transcription_raises :: "world \<Rightarrow> bool" where
  "transcription_raises w =
     (\<not> load_model_ok w \<or>
      (case transcribe w of
         None \<Rightarrow> True
       | Some segs \<Rightarrow> (case fst (write_srt segs []) of Inl _ \<Rightarrow> True | Inr _ \<Rightarrow> False)))"

text \<open>
  The namespace of an invocation that names an input file and sets no flag (the
  defaults of the parser), and a world in which everything succeeds on an input with
  one audio stream and a one-segment transcript.
\<close>

definition default_args :: "string \<Rightarrow> args" where
  "default_args input =
     \<lparr>arg_input_file = input, arg_output_path = ''./assets'',
      arg_extract_subtitles = False, arg_audio_to_video = False,
      arg_audio_to_video_with_subtitles = False, arg_combine = False,
      arg_subtitle_output_path = ''./assets/subtitles'', arg_model = ''small'',
      arg_language = None, arg_task = ''transcribe'', arg_verbose = False\<rparr>"

definition good_world :: world where
  "good_world =
     \<lparr>assets_dir_exists = True, input_is_file = True, probe = Some [Some ''audio''],
      load_model_ok = True, transcribe = Some [mk_segment 0 1 (u ''hi'')],
      subtitle_dir_exists = True, output_dir_exists = True, ffmpeg_run_ok = True\<rparr>"

section \<open>Notions used to state the properties\<close>

text \<open>
  What the loop writes for segment number \<open>i\<close> when nothing raises, and the segments for
  which nothing raises: \<open>start\<close> and \<open>end\<close> are finite floats and \<open>text\<close> is a string.
\<close>

definition seg_start :: "segment \<Rightarrow> rat" where
  "seg_start seg = (case seg ''start'' of Some (Float (Finite x)) \<Rightarrow> x | _ \<Rightarrow> 0)"

definition seg_end :: "segment \<Rightarrow> rat" where
  "seg_end seg = (case seg ''end'' of Some (Float (Finite x)) \<Rightarrow> x | _ \<Rightarrow> 0)"

definition seg_text :: "segment \<Rightarrow> pystr" where
  "seg_text seg = (case seg ''text'' of Some (Str t) \<Rightarrow> t | _ \<Rightarrow> [])"

definition well_formed :: "segment \<Rightarrow> bool" where
  "well_formed seg =
     ((case seg ''start'' of Some (Float (Finite _)) \<Rightarrow> True | _ \<Rightarrow> False) \<and>
      (case seg ''end'' of Some (Float (Finite _)) \<Rightarrow> True | _ \<Rightarrow> False) \<and>
      (case seg ''text'' of Some (Str _) \<Rightarrow> True | _ \<Rightarrow> False))"

text \<open>A value that is not an infinity or a NaN: \<open>format_timestamp\<close> of it raises no ValueError.\<close>

definition not_nonfinite :: "pyval option \<Rightarrow> bool" where
  "not_nonfinite v =
     (case v of
        Some (Float (Finite _)) \<Rightarrow> True
      | Some (Float _) \<Rightarrow> False
      | _ \<Rightarrow> True)"

definition entry :: "int \<Rightarrow> segment \<Rightarrow> pystr list" where
  "entry i seg =
     [py_str_int i @ nl,
      timestamp_str (seg_start seg) @ u '' --> '' @ timestamp_str (seg_end seg) @ nl,
      sanitize (seg_text seg) @ nl @ nl]"

fun entries_from :: "int \<Rightarrow> segment list \<Rightarrow> pystr list" where
  "entries_from i [] = []"
| "entries_from i (seg # rest) = entry i seg @ entries_from (i + 1) rest"

text \<open>Python compares strings lexicographically by code point.\<close>

definition py_str_le :: "pystr \<Rightarrow> pystr \<Rightarrow> bool" where
  "py_str_le a b = lexordp_eq a b"

text \<open>The number a string of decimal digits denotes.\<close>

fun dec :: "pystr \<Rightarrow> nat" where
  "dec [] = 0"
| "dec (d # ds) = (d - 48) * 10 ^ length ds + dec ds"

definition is_digit :: "nat \<Rightarrow> bool" where
  "is_digit c = (48 \<le> c \<and> c \<le> 57)"

subsection \<open>The timecode algorithm in the words of the specification\<close>

text \<open>The floors the specification names, taken of the exact quotients and products.\<close>

definition spec_mod :: "rat \<Rightarrow> rat \<Rightarrow> rat" where
  "spec_mod x y = x - y * of_int \<lfloor>x / y\<rfloor>"

definition spec_hours :: "rat \<Rightarrow> int" where
  "spec_hours seconds = \<lfloor>seconds / 3600\<rfloor>"

definition spec_minutes :: "rat \<Rightarrow> int" where
  "spec_minutes seconds = \<lfloor>spec_mod seconds 3600 / 60\<rfloor>"

definition spec_secs :: "rat \<Rightarrow> int" where
  "spec_secs seconds = \<lfloor>spec_mod seconds 60\<rfloor>"

definition spec_millis :: "rat \<Rightarrow> int" where
  "spec_millis seconds = \<lfloor>(seconds - of_int \<lfloor>seconds\<rfloor>) * 1000\<rfloor>"

definition spec_format_timecode :: "rat \<Rightarrow> pystr" where
  "spec_format_timecode seconds =
     fmt_0d 2 (spec_hours seconds) @ u '':'' @ fmt_0d 2 (spec_minutes seconds) @ u '':'' @
     fmt_0d 2 (spec_secs seconds) @ u '','' @ fmt_0d 3 (spec_millis seconds)"

section \<open>The binade of a number\<close>

lemma bit_length_0: "bit_length 0 = 0"
  by (simp add: bit_length.simps)

lemma bit_length_pos: "0 < n \<Longrightarrow> bit_length n = Suc (bit_length (n div 2))"
  by (subst bit_length.simps) simp

lemma bit_length_bounds:
  "0 < n \<Longrightarrow> 2 ^ (bit_length n - 1) \<le> n \<and> n < 2 ^ bit_length n"
proof (induction n rule: bit_length.induct)
  case (1 n)
  show ?case
  proof (cases "n div 2 = 0")
    case True
    with 1(2) have "n = 1" by (simp add: div_eq_0_iff) 
    then show ?thesis by (simp add: bit_length_pos bit_length_0)
  next
    case False
    then have p: "0 < n div 2" by simp
    have n0: "n \<noteq> 0" using 1(2) by simp
    let ?b = "bit_length (n div 2)"
    from 1(1) [OF n0 p] have ih: "2 ^ (?b - 1) \<le> n div 2" "n div 2 < 2 ^ ?b" by simp_all
    have bp: "0 < ?b" using p by (simp add: bit_length_pos)
    then obtain c where c: "?b = Suc c" by (cases ?b) auto
    have "2 * 2 ^ c \<le> 2 * (n div 2)" using ih(1) c by simp
    then have lo: "2 ^ ?b \<le> n" using c by simp
    have "n < 2 * (n div 2) + 2" by linarith
    moreover have "2 * (n div 2) + 2 \<le> 2 * 2 ^ ?b" using ih(2) by simp
    ultimately have hi: "n < 2 ^ Suc ?b" by simp
    show ?thesis using lo hi 1(2) by (simp add: bit_length_pos)
  qed
qed

lemma ilog2_bounds:
  assumes "0 < x"
  shows "2 powi ilog2 x \<le> x" and "x < 2 powi (ilog2 x + 1)"
proof -
  have "2 powi ilog2 x \<le> x \<and> x < 2 powi (ilog2 x + 1)"
  proof (cases "1 \<le> x")
    case True
    let ?n = "nat \<lfloor>x\<rfloor>"
    let ?b = "bit_length ?n"
    have f1: "1 \<le> \<lfloor>x\<rfloor>" using True by simp
    then have n: "0 < ?n" by simp
    from bit_length_bounds [OF n] have b: "2 ^ (?b - 1) \<le> ?n" "?n < 2 ^ ?b" by simp_all
    have bp: "0 < ?b" using n by (simp add: bit_length_pos)
    have il: "ilog2 x = int (?b - 1)" using True bp by (simp add: ilog2_def)
    have "rat_of_int (int (2 ^ (?b - 1))) \<le> rat_of_int (int ?n)" using b(1) by (simp only: of_int_le_iff of_nat_le_iff)
    also have "rat_of_int (int ?n) = of_int \<lfloor>x\<rfloor>" using f1 by simp
    also have "\<dots> \<le> x" by simp
    finally have lo: "(2::rat) ^ (?b - 1) \<le> x" by simp
    have "\<lfloor>x\<rfloor> < int (2 ^ ?b)" using b(2) f1 by linarith
    then have "x < rat_of_int (int (2 ^ ?b))" by (simp only: floor_less_iff)
    then have hi: "x < (2::rat) ^ ?b" by simp
    have e: "int (?b - 1) + 1 = int ?b" using bp by simp
    show ?thesis using lo hi unfolding il e by (simp only: power_int_of_nat)
  next
    case False
    then have x1: "x < 1" by simp
    let ?c = "\<lceil>1 / x\<rceil>"
    let ?n = "nat (?c - 1)"
    let ?b = "bit_length ?n"
    have "1 < 1 / x" using assms x1 by simp
    then have c2: "1 < ?c" by (simp only: one_less_ceiling)
    then have n: "0 < ?n" by simp
    from bit_length_bounds [OF n] have b: "2 ^ (?b - 1) \<le> ?n" "?n < 2 ^ ?b" by simp_all
    have bp: "0 < ?b" using n by (simp add: bit_length_pos)
    have il: "ilog2 x = - int ?b" using False by (simp add: ilog2_def)
    have "?c \<le> int (2 ^ ?b)" using b(2) c2 by linarith
    then have "1 / x \<le> rat_of_int (int (2 ^ ?b))" by (simp only: ceiling_le_iff)
    then have "1 / x \<le> 2 ^ ?b" by simp
    then have "1 \<le> 2 ^ ?b * x" using assms by (simp add: field_simps)
    then have lo: "1 / 2 ^ ?b \<le> x" by (simp add: field_simps)
    have "int (2 ^ (?b - 1)) < ?c" using b(1) c2 by linarith
    then have "rat_of_int (int (2 ^ (?b - 1))) < 1 / x" by (simp only: less_ceiling_iff)
    then have "2 ^ (?b - 1) < 1 / x" by simp
    then have "2 ^ (?b - 1) * x < 1" using assms by (simp add: field_simps)
    then have hi: "x < 1 / 2 ^ (?b - 1)" by (simp add: field_simps)
    have e: "- int ?b + 1 = - int (?b - 1)" using bp by simp
    show ?thesis using lo hi unfolding il e
      by (simp only: power_int_minus_divide power_int_of_nat)
  qed
  then show "2 powi ilog2 x \<le> x" and "x < 2 powi (ilog2 x + 1)" by simp_all
qed

lemma powi2_less_imp: "(2::rat) powi a < 2 powi b \<Longrightarrow> a < b"
proof (rule ccontr)
  assume l: "(2::rat) powi a < 2 powi b" and "\<not> a < b"
  then have "b \<le> a" by simp
  then have "(2::rat) powi b \<le> 2 powi a" by (rule power_int_increasing) simp
  with l show False by simp
qed

lemma ilog2_unique:
  assumes "0 < x" "2 powi k \<le> x" "x < 2 powi (k + 1)"
  shows "ilog2 x = k"
proof -
  note b = ilog2_bounds [OF assms(1)]
  have "(2::rat) powi ilog2 x < 2 powi (k + 1)" using b(1) assms(3) by (rule le_less_trans)
  then have 1: "ilog2 x < k + 1" by (rule powi2_less_imp)
  have "(2::rat) powi k < 2 powi (ilog2 x + 1)" using assms(2) b(2) by (rule le_less_trans)
  then have 2: "k < ilog2 x + 1" by (rule powi2_less_imp)
  from 1 2 show ?thesis by simp
qed

lemma ilog2_mono:
  assumes "0 < x" "x \<le> y"
  shows "ilog2 x \<le> ilog2 y"
proof -
  have y: "0 < y" using assms by simp
  have "2 powi ilog2 x \<le> x" using assms(1) by (rule ilog2_bounds)
  also note assms(2)
  also have "y < 2 powi (ilog2 y + 1)" using y by (rule ilog2_bounds)
  finally have "ilog2 x < ilog2 y + 1" by (rule powi2_less_imp)
  then show ?thesis by simp
qed

lemma ilog2_less:
  assumes "0 < x" "x < 2 powi k"
  shows "ilog2 x < k"
proof -
  have "2 powi ilog2 x \<le> x" using assms(1) by (rule ilog2_bounds)
  also note assms(2)
  finally show ?thesis by (rule powi2_less_imp)
qed

section \<open>Rounding to the nearest integer, ties to even\<close>

lemma round_half_even_of_int: "round_half_even (of_int n) = n"
  by (simp add: round_half_even_def)

lemma round_half_even_range:
  "\<lfloor>y\<rfloor> \<le> round_half_even y" "round_half_even y \<le> \<lfloor>y\<rfloor> + 1"
  by (simp_all add: round_half_even_def)

lemma round_half_even_mono:
  assumes "x \<le> y"
  shows "round_half_even x \<le> round_half_even y"
proof (cases "\<lfloor>x\<rfloor> = \<lfloor>y\<rfloor>")
  case True
  then have "x - of_int \<lfloor>x\<rfloor> \<le> y - of_int \<lfloor>y\<rfloor>" using assms by simp
  with True show ?thesis by (auto simp: round_half_even_def)
next
  case False
  have "\<lfloor>x\<rfloor> \<le> \<lfloor>y\<rfloor>" using assms by (rule floor_mono)
  with False have "\<lfloor>x\<rfloor> + 1 \<le> \<lfloor>y\<rfloor>" by simp
  with round_half_even_range(2) [of x] round_half_even_range(1) [of y]
  show ?thesis by linarith
qed

lemma round_half_even_le: "y \<le> of_int n \<Longrightarrow> round_half_even y \<le> n"
  using round_half_even_mono [of y "of_int n"] by (simp add: round_half_even_of_int)

lemma round_half_even_ge: "of_int n \<le> y \<Longrightarrow> n \<le> round_half_even y"
  using round_half_even_mono [of "of_int n" y] by (simp add: round_half_even_of_int)

lemma round_half_even_below_half:
  assumes "y < of_int n + 1 / 2"
  shows "round_half_even y \<le> n"
proof (cases "\<lfloor>y\<rfloor> < n")
  case True
  with round_half_even_range(2) [of y] show ?thesis by linarith
next
  case False
  have "\<lfloor>y\<rfloor> \<le> n"
  proof -
    have "y < of_int (n + 1)" using assms by simp
    then have "\<lfloor>y\<rfloor> < n + 1" by (simp only: floor_less_iff)
    then show ?thesis by simp
  qed
  with False have e: "\<lfloor>y\<rfloor> = n" by simp
  then have "y - of_int \<lfloor>y\<rfloor> < 1 / 2" using assms by simp
  then show ?thesis using e by (simp add: round_half_even_def)
qed

section \<open>Rounding to the nearest double\<close>

lemma fl_0: "fl 0 = 0"
  by (simp add: fl_def)

lemma pow2_pos: "0 < (2::rat) powi k"
  by (rule zero_less_power_int) simp

lemma fl_nonneg: "0 \<le> x \<Longrightarrow> 0 \<le> fl x"
proof (cases "x = 0")
  case True
  then show ?thesis by (simp add: fl_0)
next
  case False
  assume "0 \<le> x"
  then have "rat_of_int 0 \<le> x / 2 powi ulp_exp x" using pow2_pos [of "ulp_exp x"] by simp
  then have "0 \<le> round_half_even (x / 2 powi ulp_exp x)" by (rule round_half_even_ge)
  then show ?thesis using False pow2_pos [of "ulp_exp x"] by (simp add: fl_def)
qed

lemma pow2_quotient:
  assumes "b \<le> a"
  shows "(2::rat) powi a / 2 powi b = of_int (2 ^ nat (a - b))"
proof -
  have "(2::rat) powi a / 2 powi b = 2 powi (a - b)" by (simp add: power_int_diff)
  also have "a - b = int (nat (a - b))" using assms by simp
  also have "(2::rat) powi int (nat (a - b)) = 2 ^ nat (a - b)" by (rule power_int_of_nat)
  finally show ?thesis by simp
qed

lemma grid_quotient:
  assumes "b \<le> a"
  shows "rat_of_int n * 2 powi a / 2 powi b = of_int (n * 2 ^ nat (a - b))"
proof -
  have "rat_of_int n * 2 powi a / 2 powi b = of_int n * (2 powi a / 2 powi b)" by simp
  also have "\<dots> = of_int n * of_int (2 ^ nat (a - b))" using assms by (simp only: pow2_quotient)
  finally show ?thesis by simp
qed

lemma fl_le_grid:
  assumes "ulp_exp x \<le> e" "x \<le> of_int n * 2 powi e"
  shows "fl x \<le> of_int n * 2 powi e"
proof (cases "x = 0")
  case True
  with assms(2) show ?thesis by (simp add: fl_0)
next
  case False
  let ?u = "ulp_exp x"
  have "x / 2 powi ?u \<le> of_int n * 2 powi e / 2 powi ?u"
    using assms(2) pow2_pos [of ?u] by (simp add: divide_right_mono)
  then have "x / 2 powi ?u \<le> of_int (n * 2 ^ nat (e - ?u))"
    using assms(1) by (simp only: grid_quotient)
  then have "round_half_even (x / 2 powi ?u) \<le> n * 2 ^ nat (e - ?u)"
    by (rule round_half_even_le)
  then have "rat_of_int (round_half_even (x / 2 powi ?u)) \<le> of_int (n * 2 ^ nat (e - ?u))"
    by (simp only: of_int_le_iff)
  then have "rat_of_int (round_half_even (x / 2 powi ?u)) * 2 powi ?u \<le>
      of_int (n * 2 ^ nat (e - ?u)) * 2 powi ?u"
    using pow2_pos [of ?u] by (simp only: mult_le_cancel_right_pos)
  also have "rat_of_int (n * 2 ^ nat (e - ?u)) * 2 powi ?u =
      rat_of_int n * 2 powi e / 2 powi ?u * 2 powi ?u"
    using assms(1) by (simp only: grid_quotient)
  also have "\<dots> = rat_of_int n * 2 powi e" using pow2_pos [of ?u] by simp
  finally show ?thesis using False by (simp add: fl_def)
qed

lemma fl_ge_grid:
  assumes "ulp_exp x \<le> e" "of_int n * 2 powi e \<le> x"
  shows "of_int n * 2 powi e \<le> fl x"
proof (cases "x = 0")
  case True
  with assms(2) show ?thesis by (simp add: fl_0)
next
  case False
  let ?u = "ulp_exp x"
  have "of_int n * 2 powi e / 2 powi ?u \<le> x / 2 powi ?u"
    using assms(2) pow2_pos [of ?u] by (simp add: divide_right_mono)
  then have "of_int (n * 2 ^ nat (e - ?u)) \<le> x / 2 powi ?u"
    using assms(1) by (simp only: grid_quotient)
  then have "n * 2 ^ nat (e - ?u) \<le> round_half_even (x / 2 powi ?u)"
    by (rule round_half_even_ge)
  then have "rat_of_int (n * 2 ^ nat (e - ?u)) \<le> of_int (round_half_even (x / 2 powi ?u))"
    by (simp only: of_int_le_iff)
  then have r: "rat_of_int (n * 2 ^ nat (e - ?u)) * 2 powi ?u \<le>
      rat_of_int (round_half_even (x / 2 powi ?u)) * 2 powi ?u"
    using pow2_pos [of ?u] by (simp only: mult_le_cancel_right_pos)
  have "rat_of_int n * 2 powi e = rat_of_int n * 2 powi e / 2 powi ?u * 2 powi ?u"
    using pow2_pos [of ?u] by simp
  also have "\<dots> = rat_of_int (n * 2 ^ nat (e - ?u)) * 2 powi ?u"
    using assms(1) by (simp only: grid_quotient)
  also note r
  finally show ?thesis using False by (simp add: fl_def)
qed

lemma fl_grid:
  assumes "ulp_exp x \<le> e" "x = of_int n * 2 powi e"
  shows "fl x = x"
proof -
  have "fl x \<le> of_int n * 2 powi e" using assms by (intro fl_le_grid) simp_all
  moreover have "of_int n * 2 powi e \<le> fl x" using assms by (intro fl_ge_grid) simp_all
  ultimately show ?thesis using assms(2) by simp
qed

lemma ulp_exp_le:
  assumes "x \<noteq> 0" "- 1074 \<le> e" "\<bar>x\<bar> < 2 powi (e + 53)"
  shows "ulp_exp x \<le> e"
proof -
  have "0 < \<bar>x\<bar>" using assms(1) by simp
  then have "ilog2 \<bar>x\<bar> < e + 53" using assms(3) by (rule ilog2_less)
  then show ?thesis using assms(2) by (simp add: ulp_exp_def)
qed

lemma ulp_exp_ge: "- 1074 \<le> ulp_exp x"
  by (simp add: ulp_exp_def)

lemma ulp_exp_mono:
  assumes "0 < x" "x \<le> y"
  shows "ulp_exp x \<le> ulp_exp y"
proof -
  have "ilog2 x \<le> ilog2 y" using assms by (rule ilog2_mono)
  then show ?thesis using assms by (simp add: ulp_exp_def)
qed

lemma fl_of_int:
  assumes "\<bar>n\<bar> < 2 ^ 53"
  shows "fl (of_int n) = of_int n"
proof (cases "n = 0")
  case True
  then show ?thesis by (simp add: fl_0)
next
  case False
  have "rat_of_int \<bar>n\<bar> < of_int (2 ^ 53)" using assms by (simp only: of_int_less_iff)
  then have "\<bar>rat_of_int n\<bar> < 2 powi (0 + 53)" by simp
  then have "ulp_exp (of_int n) \<le> 0" using False by (intro ulp_exp_le) simp_all
  then show ?thesis by (rule fl_grid) simp
qed

lemma fl_mono:
  assumes "0 \<le> x" "x \<le> y"
  shows "fl x \<le> fl y"
proof (cases "x = 0")
  case True
  then show ?thesis using assms fl_nonneg [of y] by (simp add: fl_0)
next
  case False
  then have x: "0 < x" and y: "0 < y" using assms by simp_all
  let ?ux = "ulp_exp x" and ?uy = "ulp_exp y"
  have u: "?ux \<le> ?uy" using x assms(2) by (rule ulp_exp_mono)
  show ?thesis
  proof (cases "?ux = ?uy")
    case True
    have "x / 2 powi ?uy \<le> y / 2 powi ?uy"
      using assms(2) pow2_pos [of ?uy] by (simp add: divide_right_mono)
    then have "round_half_even (x / 2 powi ?uy) \<le> round_half_even (y / 2 powi ?uy)"
      by (rule round_half_even_mono)
    then have "rat_of_int (round_half_even (x / 2 powi ?uy)) \<le>
        of_int (round_half_even (y / 2 powi ?uy))" by (simp only: of_int_le_iff)
    then have "rat_of_int (round_half_even (x / 2 powi ?uy)) * 2 powi ?uy \<le>
        of_int (round_half_even (y / 2 powi ?uy)) * 2 powi ?uy"
      using pow2_pos [of ?uy] by (simp only: mult_le_cancel_right_pos)
    then show ?thesis using x y True by (simp add: fl_def)
  next
    case False
    with u have lt: "?ux < ?uy" by simp
    let ?k = "ilog2 y"
    have "- 1074 \<le> ?ux" by (rule ulp_exp_ge)
    with lt have "- 1074 < ?uy" by simp
    then have uy: "?uy = ?k - 52" using y by (simp add: ulp_exp_def max_def split: if_splits)
    have kx: "ilog2 x < ?k"
    proof (rule ccontr)
      assume "\<not> ilog2 x < ?k"
      moreover have "ilog2 x \<le> ?k" using x assms(2) by (rule ilog2_mono)
      ultimately have "ilog2 x = ?k" by simp
      then have "?ux = ?uy" using x y by (simp add: ulp_exp_def)
      with lt show False by simp
    qed
    have "x < 2 powi (ilog2 x + 1)" using x by (rule ilog2_bounds)
    also have "(2::rat) powi (ilog2 x + 1) \<le> 2 powi ?k"
      using kx by (intro power_int_increasing) simp_all
    finally have "x \<le> of_int 1 * 2 powi ?k" by simp
    moreover have "?ux \<le> ?k" using lt uy by simp
    ultimately have a: "fl x \<le> of_int 1 * 2 powi ?k" by (intro fl_le_grid)
    have "of_int 1 * 2 powi ?k \<le> y" using ilog2_bounds(1) [OF y] by simp
    moreover have "?uy \<le> ?k" using uy by simp
    ultimately have b: "of_int 1 * 2 powi ?k \<le> fl y" by (intro fl_ge_grid)
    from a b show ?thesis by (rule order_trans)
  qed
qed

lemma fl_eval:
  assumes "0 < x" "2 powi k \<le> x" "x < 2 powi (k + 1)"
  shows "fl x =
    of_int (round_half_even (x / 2 powi max (- 1074) (k - 52))) * 2 powi max (- 1074) (k - 52)"
proof -
  have "ilog2 x = k" using assms by (rule ilog2_unique)
  then show ?thesis using assms(1) by (simp add: fl_def ulp_exp_def)
qed

lemma double_below_one:
  assumes "fl z = z" "0 \<le> z" "z < 1"
  shows "z \<le> 1 - 1 / 2 ^ 53"
proof (cases "z < 1 / 2")
  case True
  have "(1::rat) / 2 \<le> 1 - 1 / 2 ^ 53" by simp
  with True show ?thesis by simp
next
  case False
  then have h: "2 powi (- 1) \<le> z" by simp
  have z: "0 < z" using False by simp
  have "z < 2 powi (- 1 + 1)" using assms(3) by simp
  with z h have "fl z = of_int (round_half_even (z / 2 powi max (- 1074) (- 1 - 52))) *
      2 powi max (- 1074) (- 1 - 52)" by (rule fl_eval)
  then have e: "z = of_int (round_half_even (z * 2 ^ 53)) / 2 ^ 53"
    using assms(1) by (simp add: power_int_minus_divide)
  let ?K = "round_half_even (z * 2 ^ 53)"
  have "rat_of_int ?K / 2 ^ 53 < 1" using e assms(3) by simp
  then have "rat_of_int ?K < of_int (2 ^ 53)" by simp
  then have "?K < 2 ^ 53" by (simp only: of_int_less_iff)
  then have "?K \<le> 2 ^ 53 - 1" by simp
  then have "rat_of_int ?K \<le> of_int (2 ^ 53 - 1)" by (simp only: of_int_le_iff)
  then have "rat_of_int ?K / 2 ^ 53 \<le> of_int (2 ^ 53 - 1) / 2 ^ 53"
    by (simp add: divide_right_mono)
  also have "rat_of_int (2 ^ 53 - 1) / 2 ^ 53 = 1 - 1 / 2 ^ 53" by (simp add: field_simps)
  finally show ?thesis using e by simp
qed

lemma double_frac:
  assumes "fl x = x" "0 \<le> x"
  shows "fl (x - of_int \<lfloor>x\<rfloor>) = x - of_int \<lfloor>x\<rfloor>"
proof (cases "x - of_int \<lfloor>x\<rfloor> = 0")
  case True
  then show ?thesis by (simp add: fl_0)
next
  case False
  let ?f = "x - of_int \<lfloor>x\<rfloor>"
  let ?u = "ulp_exp x"
  let ?N = "round_half_even (x / 2 powi ?u)"
  have f: "0 < ?f" using False by (simp add: less_le)
  have x0: "x \<noteq> 0" using False by auto
  then have xe: "x = of_int ?N * 2 powi ?u" using assms(1) by (simp add: fl_def)
  have neg: "?u < 0"
  proof (rule ccontr)
    assume "\<not> ?u < 0"
    then have "(2::rat) powi ?u = 2 ^ nat ?u" by (simp add: power_int_def)
    with xe have "x = rat_of_int (?N * 2 ^ nat ?u)" by simp
    then have "\<exists>m. x = rat_of_int m" by (rule exI)
    then obtain m where "x = rat_of_int m" by blast
    then have "?f = 0" by simp
    with False show False by simp
  qed
  let ?j = "nat (- ?u)"
  have p: "(2::rat) powi ?u * 2 ^ ?j = 1"
  proof -
    have "(2::rat) powi ?u = 1 / 2 powi (- ?u)" by (simp add: power_int_minus_divide)
    also have "- ?u = int ?j" using neg by simp
    also have "(2::rat) powi int ?j = 2 ^ ?j" by (rule power_int_of_nat)
    finally show ?thesis by simp
  qed
  have "?f = of_int ?N * 2 powi ?u - of_int \<lfloor>x\<rfloor> * (2 powi ?u * 2 ^ ?j)"
    using xe by (simp add: p)
  also have "\<dots> = of_int (?N - \<lfloor>x\<rfloor> * 2 ^ ?j) * 2 powi ?u"
    by (simp add: algebra_simps)
  finally have g: "?f = of_int (?N - \<lfloor>x\<rfloor> * 2 ^ ?j) * 2 powi ?u" .
  have "?f \<le> x" using assms(2) by simp
  with f have "ulp_exp ?f \<le> ?u" by (rule ulp_exp_mono)
  then show ?thesis using g by (rule fl_grid)
qed

lemma fl_below_1000:
  assumes "0 \<le> y" "y \<le> 1000 - 1000 / 2 ^ 53"
  shows "fl y < 1000"
proof (cases "y < 512")
  case True
  show ?thesis
  proof (cases "y = 0")
    case True
    then show ?thesis by (simp add: fl_0)
  next
    case False
    have "\<bar>y\<bar> < 2 powi (0 + 53)" using True assms(1) by simp
    with False have "ulp_exp y \<le> 0" by (intro ulp_exp_le) simp_all
    moreover have "y \<le> of_int 512 * 2 powi 0" using True by simp
    ultimately have "fl y \<le> of_int 512 * 2 powi 0" by (rule fl_le_grid)
    then show ?thesis by simp
  qed
next
  case False
  then have lo: "2 powi 9 \<le> y" by simp
  have y: "0 < y" using False by simp
  have "y < 2 powi (9 + 1)" using assms(2) by simp
  with y lo have "fl y = of_int (round_half_even (y / 2 powi max (- 1074) (9 - 52))) *
      2 powi max (- 1074) (9 - 52)" by (rule fl_eval)
  then have e: "fl y = of_int (round_half_even (y * 2 ^ 43)) / 2 ^ 43"
    by (simp add: power_int_minus_divide)
  have "y * 2 ^ 43 \<le> (1000 - 1000 / 2 ^ 53) * 2 ^ 43" using assms(2) by simp
  also have "\<dots> < of_int (1000 * 2 ^ 43 - 1) + 1 / 2" by simp
  finally have "round_half_even (y * 2 ^ 43) \<le> 1000 * 2 ^ 43 - 1"
    by (rule round_half_even_below_half)
  then have "rat_of_int (round_half_even (y * 2 ^ 43)) \<le> of_int (1000 * 2 ^ 43 - 1)"
    by (simp only: of_int_le_iff)
  then have "rat_of_int (round_half_even (y * 2 ^ 43)) / 2 ^ 43 \<le>
      of_int (1000 * 2 ^ 43 - 1) / 2 ^ 43" by (simp add: divide_right_mono)
  also have "rat_of_int (1000 * 2 ^ 43 - 1) / 2 ^ 43 < 1000" by simp
  finally show ?thesis using e by simp
qed

lemma fl_floor_range:
  assumes "0 \<le> y" "y < 2 ^ 53"
  shows "of_int \<lfloor>y\<rfloor> \<le> fl y" and "fl y \<le> of_int \<lfloor>y\<rfloor> + 1"
proof -
  have "of_int \<lfloor>y\<rfloor> \<le> fl y \<and> fl y \<le> of_int \<lfloor>y\<rfloor> + 1"
  proof (cases "y = 0")
    case True
    then show ?thesis by (simp add: fl_0)
  next
    case False
    have "\<bar>y\<bar> < 2 powi (0 + 53)" using assms by simp
    with False have u: "ulp_exp y \<le> 0" by (intro ulp_exp_le) simp_all
    have "of_int \<lfloor>y\<rfloor> * 2 powi 0 \<le> y" by simp
    with u have a: "of_int \<lfloor>y\<rfloor> * 2 powi 0 \<le> fl y" by (rule fl_ge_grid)
    have "y \<le> of_int (\<lfloor>y\<rfloor> + 1) * 2 powi 0" by simp linarith
    with u have "fl y \<le> of_int (\<lfloor>y\<rfloor> + 1) * 2 powi 0" by (rule fl_le_grid)
    with a show ?thesis by simp
  qed
  then show "of_int \<lfloor>y\<rfloor> \<le> fl y" and "fl y \<le> of_int \<lfloor>y\<rfloor> + 1" by simp_all
qed

section \<open>The float operators on non-negative arguments\<close>

lemma py_int_of_int: "py_int (of_int k) = k"
  by (simp add: py_int_def)

lemma py_int_nonneg: "0 \<le> x \<Longrightarrow> py_int x = \<lfloor>x\<rfloor>"
  by (simp add: py_int_def)

lemma c_fmod_nonneg:
  assumes "0 \<le> x" "0 < y"
  shows "c_fmod x y = x - y * of_int \<lfloor>x / y\<rfloor>"
  using assms by (simp add: c_fmod_def py_int_nonneg)

lemma remainder_range:
  fixes x y :: rat
  assumes "0 < y"
  shows "0 \<le> x - y * of_int \<lfloor>x / y\<rfloor>" and "x - y * of_int \<lfloor>x / y\<rfloor> < y"
proof -
  have "of_int \<lfloor>x / y\<rfloor> * y \<le> x" using assms by (rule floor_divide_lower)
  then show "0 \<le> x - y * of_int \<lfloor>x / y\<rfloor>" by (simp add: mult.commute)
  have "x < (of_int \<lfloor>x / y\<rfloor> + 1) * y" using assms by (rule floor_divide_upper)
  then show "x - y * of_int \<lfloor>x / y\<rfloor> < y" by (simp add: algebra_simps)
qed

lemma float_rem_nonneg:
  assumes "0 \<le> x" "0 < y"
  shows "float_rem x y = x - y * of_int \<lfloor>x / y\<rfloor>"
proof -
  have "0 \<le> x - y * of_int \<lfloor>x / y\<rfloor>" using assms(2) by (rule remainder_range)
  then have "\<not> x - y * of_int \<lfloor>x / y\<rfloor> < 0" by simp
  then show ?thesis using assms by (simp add: float_rem_def c_fmod_nonneg Let_def)
qed

lemma float_floor_div_exact:
  assumes "0 \<le> x" "0 < k" "k * \<lfloor>x / of_int k\<rfloor> < 2 ^ 53"
  shows "float_floor_div x (of_int k) = of_int \<lfloor>x / of_int k\<rfloor>"
proof -
  let ?q = "\<lfloor>x / rat_of_int k\<rfloor>"
  have k: "0 < rat_of_int k" using assms(2) by simp
  have q0: "0 \<le> ?q" using assms(1) k by simp
  have m: "c_fmod x (of_int k) = x - of_int k * of_int ?q"
    using assms(1) k by (rule c_fmod_nonneg)
  have mr: "\<not> x - of_int k * rat_of_int ?q < 0"
    using remainder_range(1) [OF k, of x] by simp
  have "0 \<le> k * ?q" using assms(2) q0 by simp
  then have "\<bar>k * ?q\<bar> < 2 ^ 53" using assms(3) by simp
  then have "fl (rat_of_int (k * ?q)) = of_int (k * ?q)" by (rule fl_of_int)
  then have a: "fl (x - (x - of_int k * of_int ?q)) = of_int k * of_int ?q" by simp
  have "?q \<le> k * ?q" using assms(2) q0 by (simp add: mult_le_cancel_right1)
  then have "?q < 2 ^ 53" using assms(3) by linarith
  then have "\<bar>?q\<bar> < 2 ^ 53" by (simp only: abs_of_nonneg [OF q0])
  then have b: "fl (rat_of_int ?q) = of_int ?q" by (rule fl_of_int)
  have c: "rat_of_int k * of_int ?q / of_int k = of_int ?q" using k by simp
  have d0: "fl (fl (x - c_fmod x (of_int k)) / of_int k) = of_int ?q"
    by (simp only: m a c b)
  show ?thesis
    unfolding float_floor_div_def Let_def d0
    using mr k by (simp add: m fl_0)
qed

lemma float_floor_div_nonneg:
  assumes "0 \<le> x" "0 < y"
  shows "0 \<le> float_floor_div x y"
proof -
  let ?m = "x - y * of_int \<lfloor>x / y\<rfloor>"
  have m: "c_fmod x y = ?m" using assms by (rule c_fmod_nonneg)
  have m0: "0 \<le> ?m" using assms(2) by (rule remainder_range)
  then have mr: "\<not> ?m < 0" by simp
  have "0 \<le> y * rat_of_int \<lfloor>x / y\<rfloor>" using assms by simp
  then have "0 \<le> x - ?m" by simp
  then have "0 \<le> fl (x - ?m)" by (rule fl_nonneg)
  then have "0 \<le> fl (x - ?m) / y" using assms(2) by simp
  then have d: "0 \<le> fl (fl (x - ?m) / y)" by (rule fl_nonneg)
  let ?d = "fl (fl (x - ?m) / y)"
  have f: "0 \<le> rat_of_int \<lfloor>?d\<rfloor>" using d by simp
  then have "0 \<le> rat_of_int \<lfloor>?d\<rfloor> + 1" by simp
  then have g: "0 \<le> fl (rat_of_int \<lfloor>?d\<rfloor> + 1)" by (rule fl_nonneg)
  show ?thesis
    unfolding float_floor_div_def Let_def m
    using mr assms(2) f g by simp
qed

lemma ts_hours_nonneg: "0 \<le> s \<Longrightarrow> 0 \<le> ts_hours s"
  using float_floor_div_nonneg [of s 3600] by (simp add: ts_hours_def py_int_def)

lemma ts_hours_floor:
  assumes "0 \<le> s" "s < 2 ^ 53"
  shows "ts_hours s = \<lfloor>s / 3600\<rfloor>"
proof -
  have "rat_of_int (3600 * \<lfloor>s / rat_of_int 3600\<rfloor>) \<le> s"
    using floor_divide_lower [of "3600::rat" s] by (simp add: mult.commute)
  also have "s < rat_of_int (2 ^ 53)" using assms(2) by simp
  finally have "3600 * \<lfloor>s / rat_of_int 3600\<rfloor> < 2 ^ 53" by (simp only: of_int_less_iff)
  with assms(1) have "float_floor_div s (of_int 3600) = of_int \<lfloor>s / of_int 3600\<rfloor>"
    by (intro float_floor_div_exact) simp_all
  then show ?thesis by (simp add: ts_hours_def py_int_of_int)
qed

lemma ts_minutes_floor:
  assumes "0 \<le> s"
  shows "ts_minutes s = \<lfloor>s / 60\<rfloor> - 60 * \<lfloor>s / 3600\<rfloor>"
proof -
  let ?r = "s - 3600 * rat_of_int \<lfloor>s / 3600\<rfloor>"
  have r: "float_rem s 3600 = ?r" using assms by (intro float_rem_nonneg) simp_all
  have r0: "0 \<le> ?r" and r1: "?r < 3600" by (rule remainder_range, simp)+
  have "rat_of_int (60 * \<lfloor>?r / rat_of_int 60\<rfloor>) \<le> ?r"
    using floor_divide_lower [of "60::rat" ?r] by (simp add: mult.commute)
  also have "?r < rat_of_int (2 ^ 53)" using r1 by simp
  finally have "60 * \<lfloor>?r / rat_of_int 60\<rfloor> < 2 ^ 53" by (simp only: of_int_less_iff)
  with r0 have "float_floor_div ?r (of_int 60) = of_int \<lfloor>?r / of_int 60\<rfloor>"
    by (intro float_floor_div_exact) simp_all
  then have "ts_minutes s = \<lfloor>?r / 60\<rfloor>" by (simp add: ts_minutes_def r py_int_of_int)
  also have "?r / 60 = s / 60 - of_int (60 * \<lfloor>s / 3600\<rfloor>)" by (simp add: field_simps)
  also have "\<lfloor>\<dots>\<rfloor> = \<lfloor>s / 60\<rfloor> - 60 * \<lfloor>s / 3600\<rfloor>" by (simp only: floor_diff_of_int)
  finally show ?thesis .
qed

lemma ts_secs_floor:
  assumes "0 \<le> s"
  shows "ts_secs s = \<lfloor>s\<rfloor> - 60 * \<lfloor>s / 60\<rfloor>"
proof -
  let ?r = "s - 60 * rat_of_int \<lfloor>s / 60\<rfloor>"
  have r: "float_rem s 60 = ?r" using assms by (intro float_rem_nonneg) simp_all
  have r0: "0 \<le> ?r" by (rule remainder_range) simp
  then have "ts_secs s = \<lfloor>?r\<rfloor>" by (simp add: ts_secs_def r py_int_nonneg)
  also have "?r = s - of_int (60 * \<lfloor>s / 60\<rfloor>)" by simp
  also have "\<lfloor>\<dots>\<rfloor> = \<lfloor>s\<rfloor> - 60 * \<lfloor>s / 60\<rfloor>" by (simp only: floor_diff_of_int)
  finally show ?thesis .
qed

lemma ts_minutes_range:
  assumes "0 \<le> s"
  shows "0 \<le> ts_minutes s" "ts_minutes s \<le> 59"
proof -
  let ?r = "s - 3600 * rat_of_int \<lfloor>s / 3600\<rfloor>"
  have r0: "0 \<le> ?r" and r1: "?r < 3600" by (rule remainder_range, simp)+
  have "?r / 60 = s / 60 - of_int (60 * \<lfloor>s / 3600\<rfloor>)" by (simp add: field_simps)
  then have "\<lfloor>?r / 60\<rfloor> = \<lfloor>s / 60\<rfloor> - 60 * \<lfloor>s / 3600\<rfloor>" by (simp only: floor_diff_of_int)
  then have m: "ts_minutes s = \<lfloor>?r / 60\<rfloor>" using assms by (simp only: ts_minutes_floor)
  show "0 \<le> ts_minutes s" using r0 by (simp add: m)
  have "?r / 60 < 60" using r1 by simp
  then have "\<lfloor>?r / 60\<rfloor> < 60" by (simp add: floor_less_iff)
  then show "ts_minutes s \<le> 59" by (simp add: m)
qed

lemma ts_secs_range:
  assumes "0 \<le> s"
  shows "0 \<le> ts_secs s" "ts_secs s \<le> 59"
proof -
  let ?r = "s - 60 * rat_of_int \<lfloor>s / 60\<rfloor>"
  have r0: "0 \<le> ?r" and r1: "?r < 60" by (rule remainder_range, simp)+
  have "?r = s - of_int (60 * \<lfloor>s / 60\<rfloor>)" by simp
  then have "\<lfloor>?r\<rfloor> = \<lfloor>s\<rfloor> - 60 * \<lfloor>s / 60\<rfloor>" by (simp only: floor_diff_of_int)
  then have m: "ts_secs s = \<lfloor>?r\<rfloor>" using assms by (simp only: ts_secs_floor)
  show "0 \<le> ts_secs s" using r0 by (simp add: m)
  have "\<lfloor>?r\<rfloor> < 60" using r1 by (simp add: floor_less_iff)
  then show "ts_secs s \<le> 59" by (simp add: m)
qed

text \<open>The fractional part of a double is a double, so only the product is rounded.\<close>

lemma ts_milliseconds_double:
  assumes "fl s = s" "0 \<le> s"
  shows "ts_milliseconds s = \<lfloor>fl ((s - of_int \<lfloor>s\<rfloor>) * 1000)\<rfloor>"
proof -
  have "0 \<le> (s - of_int \<lfloor>s\<rfloor>) * 1000" by simp
  then have "0 \<le> fl ((s - of_int \<lfloor>s\<rfloor>) * 1000)" by (rule fl_nonneg)
  then show ?thesis
    using assms by (simp add: ts_milliseconds_def py_int_nonneg double_frac)
qed

lemma ts_milliseconds_range:
  assumes "fl s = s" "0 \<le> s"
  shows "0 \<le> ts_milliseconds s" "ts_milliseconds s \<le> 999"
proof -
  let ?f = "s - of_int \<lfloor>s\<rfloor>"
  have f0: "0 \<le> ?f" and f1: "?f < 1" by linarith+
  have ff: "fl ?f = ?f" using assms by (rule double_frac)
  from ff f0 f1 have "?f \<le> 1 - 1 / 2 ^ 53" by (rule double_below_one)
  then have "?f * 1000 \<le> (1 - 1 / 2 ^ 53) * 1000" by simp
  then have u: "?f * 1000 \<le> 1000 - 1000 / 2 ^ 53" by (simp add: algebra_simps)
  have p: "0 \<le> ?f * 1000" using f0 by simp
  have n: "0 \<le> fl (?f * 1000)" using p by (rule fl_nonneg)
  have b: "fl (?f * 1000) < 1000" using p u by (rule fl_below_1000)
  have m: "ts_milliseconds s = \<lfloor>fl (?f * 1000)\<rfloor>" using assms by (rule ts_milliseconds_double)
  show "0 \<le> ts_milliseconds s" using n by (simp add: m)
  have "\<lfloor>fl (?f * 1000)\<rfloor> < 1000" using b by (simp add: floor_less_iff)
  then show "ts_milliseconds s \<le> 999" by (simp add: m)
qed

lemma ts_milliseconds_near_floor:
  assumes "fl s = s" "0 \<le> s"
  shows "\<lfloor>(s - of_int \<lfloor>s\<rfloor>) * 1000\<rfloor> \<le> ts_milliseconds s"
    and "ts_milliseconds s \<le> \<lfloor>(s - of_int \<lfloor>s\<rfloor>) * 1000\<rfloor> + 1"
proof -
  let ?p = "(s - of_int \<lfloor>s\<rfloor>) * 1000"
  have f0: "0 \<le> s - of_int \<lfloor>s\<rfloor>" and f1: "s - of_int \<lfloor>s\<rfloor> < 1" by linarith+
  have p0: "0 \<le> ?p" using f0 by simp
  have "?p < 1000" using f1 by simp
  then have p1: "?p < 2 ^ 53" by simp
  have m: "ts_milliseconds s = \<lfloor>fl ?p\<rfloor>" using assms by (rule ts_milliseconds_double)
  note r = fl_floor_range [OF p0 p1]
  have "\<lfloor>rat_of_int \<lfloor>?p\<rfloor>\<rfloor> \<le> \<lfloor>fl ?p\<rfloor>" using r(1) by (rule floor_mono)
  then show "\<lfloor>?p\<rfloor> \<le> ts_milliseconds s" by (simp add: m)
  have "\<lfloor>fl ?p\<rfloor> \<le> \<lfloor>rat_of_int (\<lfloor>?p\<rfloor> + 1)\<rfloor>" using r(2) by (intro floor_mono) simp
  then show "ts_milliseconds s \<le> \<lfloor>?p\<rfloor> + 1" by (simp add: m)
qed

lemma ts_milliseconds_mono:
  assumes "fl s = s" "fl e = e" "0 \<le> s" "s \<le> e" "\<lfloor>s\<rfloor> = \<lfloor>e\<rfloor>"
  shows "ts_milliseconds s \<le> ts_milliseconds e"
proof -
  have e0: "0 \<le> e" using assms by simp
  have "(s - of_int \<lfloor>s\<rfloor>) * 1000 \<le> (e - of_int \<lfloor>e\<rfloor>) * 1000" using assms(4,5) by simp
  moreover have "0 \<le> (s - of_int \<lfloor>s\<rfloor>) * 1000" by simp
  ultimately have "fl ((s - of_int \<lfloor>s\<rfloor>) * 1000) \<le> fl ((e - of_int \<lfloor>e\<rfloor>) * 1000)"
    by (intro fl_mono)
  then have "\<lfloor>fl ((s - of_int \<lfloor>s\<rfloor>) * 1000)\<rfloor> \<le> \<lfloor>fl ((e - of_int \<lfloor>e\<rfloor>) * 1000)\<rfloor>"
    by (rule floor_mono)
  then show ?thesis
    using assms(1,2,3) e0 by (simp only: ts_milliseconds_double)
qed

section \<open>Evaluating the definitions on literals\<close>

lemma u_simps: "u [] = []" "u (c # cs) = of_char c # u cs"
  by (simp_all add: u_def)

lemma floor_rat_numeral_div:
  "\<lfloor>(numeral a :: rat) / numeral b\<rfloor> = numeral a div numeral b"
  using floor_divide_of_int_eq [of "numeral a" "numeral b", where ?'a = rat] by simp

lemma floor_rat_one_div: "\<lfloor>(1 :: rat) / numeral b\<rfloor> = 1 div numeral b"
  using floor_divide_of_int_eq [of 1 "numeral b", where ?'a = rat] by simp

lemma floor_rat_neg_numeral_div:
  "\<lfloor>- ((numeral a :: rat) / numeral b)\<rfloor> = - numeral a div numeral b"
  using floor_divide_of_int_eq [of "- numeral a" "numeral b", where ?'a = rat] by simp

lemma floor_rat_neg_one_div: "\<lfloor>- ((1 :: rat) / numeral b)\<rfloor> = - 1 div numeral b"
  using floor_divide_of_int_eq [of "- 1" "numeral b", where ?'a = rat] by simp

lemmas floor_eval =
  floor_rat_numeral_div floor_rat_one_div floor_rat_neg_numeral_div floor_rat_neg_one_div
  ceiling_def

text \<open>A multiple of a power of two with at most 53 significant bits is a double.\<close>

lemma fl_dyadic:
  assumes "x = of_int n * 2 powi e" "- 1074 \<le> e" "\<bar>x\<bar> < 2 powi (e + 53)"
  shows "fl x = x"
proof (cases "x = 0")
  case True
  then show ?thesis by (simp add: fl_0)
next
  case False
  then have "ulp_exp x \<le> e" using assms(2,3) by (rule ulp_exp_le)
  then show ?thesis using assms(1) by (rule fl_grid)
qed

lemma fl_numeral: "(numeral a :: int) < 2 ^ 53 \<Longrightarrow> fl (numeral a) = numeral a"
  using fl_of_int [of "numeral a"] by simp

lemma fl_neg_numeral: "(numeral a :: int) < 2 ^ 53 \<Longrightarrow> fl (- numeral a) = - numeral a"
  using fl_of_int [of "- numeral a"] by simp

lemma fl_1: "fl 1 = 1" "fl (- 1) = - 1"
  using fl_of_int [of 1] fl_of_int [of "- 1"] by simp_all

lemma fl_halves:
  assumes "\<bar>n\<bar> < 2 ^ 53"
  shows "fl (of_int n / 2) = of_int n / 2" and "fl (of_int n / 4) = of_int n / 4"
proof -
  have b: "\<bar>rat_of_int n\<bar> < 2 ^ 53"
  proof -
    have "rat_of_int \<bar>n\<bar> < of_int (2 ^ 53)" using assms by (simp only: of_int_less_iff)
    then show ?thesis by simp
  qed
  show "fl (of_int n / 2) = of_int n / 2"
  proof (rule fl_dyadic [where n = n and e = "- 1"])
    show "rat_of_int n / 2 = of_int n * 2 powi (- 1)" by (simp add: power_int_minus_divide)
    show "\<bar>rat_of_int n / 2\<bar> < 2 powi (- 1 + 53)" using b by simp
  qed simp
  show "fl (of_int n / 4) = of_int n / 4"
  proof (rule fl_dyadic [where n = n and e = "- 2"])
    show "rat_of_int n / 4 = of_int n * 2 powi (- 2)" by (simp add: power_int_minus_divide)
    show "\<bar>rat_of_int n / 4\<bar> < 2 powi (- 2 + 53)" using b by simp
  qed simp
qed

lemma fl_numeral_half:
  "(numeral a :: int) < 2 ^ 53 \<Longrightarrow> fl (numeral a / 2) = numeral a / 2"
  "(numeral a :: int) < 2 ^ 53 \<Longrightarrow> fl (- (numeral a / 2)) = - (numeral a / 2)"
  "fl (1 / 2) = 1 / 2" "fl (- (1 / 2)) = - (1 / 2)"
  "(numeral a :: int) < 2 ^ 53 \<Longrightarrow> fl (numeral a / 4) = numeral a / 4"
  "fl (1 / 4) = 1 / 4"
  using fl_halves [of "numeral a"] fl_halves [of "- numeral a"] fl_halves [of 1]
    fl_halves [of "- 1"] by simp_all

lemmas fl_lit = fl_0 fl_1 fl_numeral fl_neg_numeral fl_numeral_half

lemmas float_eval =
  ts_hours_def ts_minutes_def ts_secs_def ts_milliseconds_def float_floor_div_def
  float_rem_def c_fmod_def py_int_def Let_def floor_eval fl_lit

lemma replicate_num: "replicate (numeral k) x = x # replicate (pred_numeral k) x"
  by (simp add: numeral_eq_Suc)

lemmas lit_eval = u_simps nl_def arrow_def

lemmas fmt_eval =
  timestamp_str_def float_eval fmt_0d_def py_str_int_def zfill_def digits.simps replicate_num

lemma py_replace_Nil: "py_replace (a # as) new [] = []"
  by (simp add: py_replace.simps)

lemma py_replace_Cons:
  "py_replace (a # as) new (c # cs) =
     (if prefix (a # as) (c # cs) then new @ py_replace (a # as) new (drop (length as) cs)
      else c # py_replace (a # as) new cs)"
  by (subst py_replace.simps) simp

lemmas text_eval =
  sanitize_def py_strip_def py_isspace_def py_replace_Nil py_replace_Cons

lemma format_timestamp_Finite: "format_timestamp (Finite x) = Inr (timestamp_str x)"
  by (simp add: format_timestamp_def)

lemma getitem_mk_segment:
  "getitem (mk_segment s e t) ''start'' = Inr (Float (Finite s))"
  "getitem (mk_segment s e t) ''end'' = Inr (Float (Finite e))"
  "getitem (mk_segment s e t) ''text'' = Inr (Str t)"
  by (simp_all add: getitem_def mk_segment_def)

lemma loop_body_mk_segment:
  "loop_body i (mk_segment s e t) file =
     (Inr (),
      file @ [py_str_int i @ nl,
              timestamp_str s @ u '' --> '' @ timestamp_str e @ nl,
              sanitize t @ nl @ nl])"
  by (simp add: loop_body_def loop_locals_def and_then_def getitem_mk_segment
      timestamp_of_def text_of_def file_write_def format_timestamp_Finite)

section \<open>The end-to-end scenario\<close>

text \<open>
  C4.  For the two segments \<open>{start: 0.0, end: 1.5, text: "Hello"}\<close> and
  \<open>{start: 1.5, end: 3.25, text: "World --> End"}\<close>, \<open>write_srt\<close> returns normally after
  exactly six writes to an empty sink: the index line \<open>1\<close>, the timecode line
  \<open>00:00:00,000 --> 00:00:01,500\<close>, the text \<open>Hello\<close> followed by an empty line, the
  index line \<open>2\<close>, the timecode line \<open>00:00:01,500 --> 00:00:03,250\<close>, and the text
  \<open>World\<close>, U+2192, \<open>End\<close> followed by an empty line; nothing else is written.
\<close>

theorem write_srt_two_segments:
  "write_srt [mk_segment 0 1.5 (u ''Hello''), mk_segment 1.5 3.25 (u ''World --> End'')] [] =
     (Inr (),
      [u ''1'' @ nl,
       u ''00:00:00,000 --> 00:00:01,500'' @ nl,
       u ''Hello'' @ nl @ nl,
       u ''2'' @ nl,
       u ''00:00:01,500 --> 00:00:03,250'' @ nl,
       u ''World '' @ arrow @ u '' End'' @ nl @ nl]) \<and>
   contents (snd (write_srt
       [mk_segment 0 1.5 (u ''Hello''), mk_segment 1.5 3.25 (u ''World --> End'')] [])) =
     u ''1'' @ nl @
     u ''00:00:00,000 --> 00:00:01,500'' @ nl @
     u ''Hello'' @ nl @
     nl @
     u ''2'' @ nl @
     u ''00:00:01,500 --> 00:00:03,250'' @ nl @
     u ''World '' @ arrow @ u '' End'' @ nl @
     nl"
  by (simp add: write_srt_def loop_body_mk_segment fmt_eval text_eval lit_eval contents_def)

section \<open>Decimal digits and zero padding\<close>

lemma dec_snoc: "dec (xs @ [d]) = 10 * dec xs + (d - 48)"
  by (induction xs) (simp_all add: algebra_simps)

lemma dec_digits: "dec (digits n) = n"
proof (induction n rule: digits.induct)
  case (1 n)
  show ?case
  proof (cases "n < 10")
    case True
    then show ?thesis by (simp add: digits.simps)
  next
    case False
    with 1 have "dec (digits (n div 10)) = n div 10" by simp
    with False show ?thesis by (subst digits.simps) (simp add: dec_snoc)
  qed
qed

lemma digits_all_digit: "list_all is_digit (digits n)"
proof (induction n rule: digits.induct)
  case (1 n)
  show ?case
  proof (cases "n < 10")
    case True
    then show ?thesis by (simp add: digits.simps is_digit_def)
  next
    case False
    with 1 have "list_all is_digit (digits (n div 10))" by simp
    moreover have "n mod 10 < 10" by simp
    ultimately show ?thesis using False
      by (subst digits.simps) (simp add: is_digit_def)
  qed
qed

lemma digits_nonempty: "digits n \<noteq> []"
  by (subst digits.simps) simp

lemma length_digits_le: "0 < k \<Longrightarrow> n < 10 ^ k \<Longrightarrow> length (digits n) \<le> k"
proof (induction n arbitrary: k rule: digits.induct)
  case (1 n)
  show ?case
  proof (cases "n < 10")
    case True
    with 1(2) show ?thesis by (simp add: digits.simps)
  next
    case False
    obtain j where k: "k = Suc j" using 1(2) by (cases k) auto
    have "j \<noteq> 0" using False 1(3) k by (cases j) auto
    moreover have "n div 10 < 10 ^ j" using 1(3) k by (simp add: less_mult_imp_div_less mult.commute)
    ultimately have "length (digits (n div 10)) \<le> j" using 1(1) [OF False, of j] by simp
    with False k show ?thesis by (subst digits.simps) simp
  qed
qed

lemma length_digits_gt: "10 ^ k \<le> n \<Longrightarrow> k < length (digits n)"
proof (induction n arbitrary: k rule: digits.induct)
  case (1 n)
  show ?case
  proof (cases "n < 10")
    case True
    have "k = 0"
    proof (cases k)
      case (Suc j)
      have "(10::nat) \<le> 10 * 10 ^ j" by simp
      with 1(2) Suc True show ?thesis by simp
    qed simp
    with True show ?thesis by (simp add: digits.simps)
  next
    case False
    show ?thesis
    proof (cases k)
      case 0
      then show ?thesis using digits_nonempty [of n] by (cases "digits n") auto
    next
      case (Suc j)
      with 1(2) have "10 ^ j \<le> n div 10" by (simp add: less_eq_div_iff_mult_less_eq mult.commute)
      then have "j < length (digits (n div 10))" using 1(1) [OF False] by simp
      with False Suc show ?thesis by (subst digits.simps) simp
    qed
  qed
qed

lemma length_zfill: "length (zfill w ds) = max w (length ds)"
  by (simp add: zfill_def)

lemma dec_replicate_zero: "dec (replicate k 48 @ ds) = dec ds"
  by (induction k) simp_all

lemma dec_zfill: "dec (zfill w ds) = dec ds"
  by (simp add: zfill_def dec_replicate_zero)

lemma zfill_all_digit: "list_all is_digit ds \<Longrightarrow> list_all is_digit (zfill w ds)"
  by (auto simp: zfill_def is_digit_def list_all_iff)

lemma fmt_0d_nonneg: "0 \<le> n \<Longrightarrow> fmt_0d w n = zfill w (digits (nat n))"
  by (simp add: fmt_0d_def)

lemma fmt_0d_all_digit: "0 \<le> n \<Longrightarrow> list_all is_digit (fmt_0d w n)"
  by (simp add: fmt_0d_nonneg zfill_all_digit digits_all_digit)

lemma dec_fmt_0d: "0 \<le> n \<Longrightarrow> int (dec (fmt_0d w n)) = n"
  by (simp add: fmt_0d_nonneg dec_zfill dec_digits)

lemma length_fmt_0d_ge: "w \<le> length (fmt_0d w n)"
  by (auto simp: fmt_0d_def length_zfill)

lemma length_fmt_0d_eq:
  assumes "0 \<le> n" "0 < w" "n < 10 ^ w"
  shows "length (fmt_0d w n) = w"
proof -
  have "nat n < 10 ^ w" using assms by (simp add: nat_less_iff)
  then have "length (digits (nat n)) \<le> w" using assms(2) by (rule length_digits_le [rotated])
  then show ?thesis using assms(1) by (simp add: fmt_0d_nonneg length_zfill)
qed

section \<open>The fields of a timestamp\<close>

lemma is_doubleD: "is_double x \<Longrightarrow> fl x = x"
  by (simp add: is_double_def)

lemma ts_hours_mono:
  assumes "0 \<le> s" "s \<le> e" "e < 2 ^ 53"
  shows "ts_hours s \<le> ts_hours e"
proof -
  have "ts_hours s = \<lfloor>s / 3600\<rfloor>" using assms by (intro ts_hours_floor) simp_all
  moreover have "ts_hours e = \<lfloor>e / 3600\<rfloor>" using assms by (intro ts_hours_floor) simp_all
  moreover have "\<lfloor>s / 3600\<rfloor> \<le> \<lfloor>e / 3600\<rfloor>"
    using assms(2) by (simp add: floor_mono divide_right_mono)
  ultimately show ?thesis by simp
qed

lemma length_hours_below_100:
  assumes "0 \<le> s" "s < 360000"
  shows "length (fmt_0d 2 (ts_hours s)) = 2"
proof -
  have "s < 2 ^ 53" using assms(2) by simp
  with assms(1) have h: "ts_hours s = \<lfloor>s / 3600\<rfloor>" by (rule ts_hours_floor)
  have "s / 3600 < 100" using assms(2) by simp
  then have "ts_hours s < 100" by (simp add: h floor_less_iff)
  then show ?thesis using ts_hours_nonneg [OF assms(1)] by (intro length_fmt_0d_eq) simp_all
qed

lemma length_minutes: "0 \<le> s \<Longrightarrow> length (fmt_0d 2 (ts_minutes s)) = 2"
  using ts_minutes_range [of s] by (intro length_fmt_0d_eq) simp_all

lemma length_secs: "0 \<le> s \<Longrightarrow> length (fmt_0d 2 (ts_secs s)) = 2"
  using ts_secs_range [of s] by (intro length_fmt_0d_eq) simp_all

lemma length_milliseconds:
  "fl s = s \<Longrightarrow> 0 \<le> s \<Longrightarrow> length (fmt_0d 3 (ts_milliseconds s)) = 3"
  using ts_milliseconds_range [of s] by (intro length_fmt_0d_eq) simp_all

text \<open>The doubles the literals of the examples denote.\<close>

lemma fl_literals:
  "fl 1.9999 = 9006748894778255 / 4503599627370496"
  "fl 0.84 = 7566047373982433 / 9007199254740992"
  "fl 3661.5 = 3661.5"
proof -
  show "fl 1.9999 = 9006748894778255 / 4503599627370496"
    using fl_eval [of "1.9999" 0]
    by (simp add: round_half_even_def floor_eval power_int_minus_divide)
  show "fl 0.84 = 7566047373982433 / 9007199254740992"
    using fl_eval [of "0.84" "- 1"]
    by (simp add: round_half_even_def floor_eval power_int_minus_divide)
  show "fl 3661.5 = 3661.5" by (simp add: fl_lit)
qed

lemma double_literals:
  "is_double (9006748894778255 / 4503599627370496)"
  "is_double (7566047373982433 / 9007199254740992)"
  "is_double 100000000000000000000"
proof -
  have "fl (9006748894778255 / 4503599627370496) = 9006748894778255 / 4503599627370496"
    by (rule fl_dyadic [where n = 9006748894778255 and e = "- 52"])
      (simp_all add: power_int_minus_divide)
  then show "is_double (9006748894778255 / 4503599627370496)" by (simp add: is_double_def)
  have "fl (7566047373982433 / 9007199254740992) = 7566047373982433 / 9007199254740992"
    by (rule fl_dyadic [where n = 7566047373982433 and e = "- 53"])
      (simp_all add: power_int_minus_divide)
  then show "is_double (7566047373982433 / 9007199254740992)" by (simp add: is_double_def)
  have "fl 100000000000000000000 = 100000000000000000000"
    by (rule fl_dyadic [where n = 95367431640625 and e = 20]) simp_all
  then show "is_double 100000000000000000000" by (simp add: is_double_def)
qed

lemma ts_milliseconds_literals:
  "ts_milliseconds (9006748894778255 / 4503599627370496) = 999"
  "ts_milliseconds (7566047373982433 / 9007199254740992) = 840"
proof -
  have a: "fl (4503149267407759 / 4503599627370496) = 4503149267407759 / 4503599627370496"
    by (rule fl_dyadic [where n = 4503149267407759 and e = "- 52"])
      (simp_all add: power_int_minus_divide)
  have b: "fl (562893658425969875 / 562949953421312) = 8795213412905779 / 8796093022208"
    using fl_eval [of "562893658425969875 / 562949953421312" 9]
    by (simp add: round_half_even_def floor_eval power_int_minus_divide)
  show "ts_milliseconds (9006748894778255 / 4503599627370496) = 999"
    by (simp add: ts_milliseconds_def py_int_def floor_eval a b)
  have c: "fl (7566047373982433 / 9007199254740992) = 7566047373982433 / 9007199254740992"
    using double_literals(2) by (rule is_doubleD)
  have d: "fl (945755921747804125 / 1125899906842624) = 840"
    using fl_eval [of "945755921747804125 / 1125899906842624" 9]
    by (simp add: round_half_even_def floor_eval power_int_minus_divide)
  show "ts_milliseconds (7566047373982433 / 9007199254740992) = 840"
    by (simp add: ts_milliseconds_def py_int_def floor_eval c d)
qed

lemma ts_hours_1e20: "ts_hours 100000000000000000000 = 27777777777777776"
proof -
  have a: "fl 99999999999999997200 = 100000000000000000000"
    using fl_eval [of 99999999999999997200 66]
    by (simp add: round_half_even_def floor_eval)
  have b: "fl (250000000000000000 / 9) = 27777777777777776"
    using fl_eval [of "250000000000000000 / 9" 54]
    by (simp add: round_half_even_def floor_eval)
  show ?thesis
    by (simp add: ts_hours_def float_floor_div_def c_fmod_def py_int_def Let_def floor_eval
        a b fl_0)
qed

lemma timestamp_str_literals:
  "timestamp_str (9006748894778255 / 4503599627370496) = u ''00:00:01,999''"
  "timestamp_str (7566047373982433 / 9007199254740992) = u ''00:00:00,840''"
proof -
  have f: "ts_hours (9006748894778255 / 4503599627370496) = 0"
    "ts_minutes (9006748894778255 / 4503599627370496) = 0"
    "ts_secs (9006748894778255 / 4503599627370496) = 1"
    "ts_hours (7566047373982433 / 9007199254740992) = 0"
    "ts_minutes (7566047373982433 / 9007199254740992) = 0"
    "ts_secs (7566047373982433 / 9007199254740992) = 0"
    by (simp_all add: ts_hours_floor ts_minutes_floor ts_secs_floor floor_eval)
  show "timestamp_str (9006748894778255 / 4503599627370496) = u ''00:00:01,999''"
    by (simp add: timestamp_str_def f ts_milliseconds_literals fmt_0d_def zfill_def
        digits.simps replicate_num lit_eval)
  show "timestamp_str (7566047373982433 / 9007199254740992) = u ''00:00:00,840''"
    by (simp add: timestamp_str_def f ts_milliseconds_literals fmt_0d_def zfill_def
        digits.simps replicate_num lit_eval)
qed

section \<open>Truncation at every unit boundary\<close>

text \<open>
  C5 (as amended).  For every finite float \<open>seconds \<ge> 0\<close>, minutes is the floor of
  \<open>(seconds mod 3600) / 60\<close> and secs the floor of \<open>seconds mod 60\<close>; hours is the floor
  of \<open>seconds / 3600\<close> when \<open>seconds\<close> is below \<open>2 ^ 53\<close>; milliseconds is the integer
  part of the float product of the fractional part by 1000, which is the floor of the
  exact product or that floor plus one, and never above 999.  Where milliseconds is
  that floor and \<open>seconds\<close> is below \<open>2 ^ 53\<close>, the formatter returns the string of the
  specification's algorithm.  \<open>format_timestamp(1.9999)\<close> is \<open>00:00:01,999\<close> and
  \<open>format_timestamp(3661.5)\<close> is \<open>01:01:01,500\<close>.  The milliseconds are not always
  the floor: the float \<open>0.84\<close> lies below 84/100 and is printed as \<open>00:00:00,840\<close>.
\<close>

theorem format_timestamp_truncates:
  assumes "is_double seconds" and "0 \<le> seconds"
  shows "ts_minutes seconds = spec_minutes seconds \<and>
         ts_secs seconds = spec_secs seconds \<and>
         (seconds < 2 ^ 53 \<longrightarrow> ts_hours seconds = spec_hours seconds) \<and>
         ts_milliseconds seconds = \<lfloor>fl ((seconds - of_int \<lfloor>seconds\<rfloor>) * 1000)\<rfloor> \<and>
         spec_millis seconds \<le> ts_milliseconds seconds \<and>
         ts_milliseconds seconds \<le> spec_millis seconds + 1 \<and>
         ts_milliseconds seconds \<le> 999 \<and>
         (seconds < 2 ^ 53 \<and> ts_milliseconds seconds = spec_millis seconds \<longrightarrow>
            format_timestamp (Finite seconds) = Inr (spec_format_timecode seconds)) \<and>
         format_timestamp (Finite (fl 1.9999)) = Inr (u ''00:00:01,999'') \<and>
         format_timestamp (Finite (fl 3661.5)) = Inr (u ''01:01:01,500'')"
proof -
  note d = is_doubleD [OF assms(1)]
  have "spec_mod seconds 3600 / 60 = seconds / 60 - of_int (60 * \<lfloor>seconds / 3600\<rfloor>)"
    by (simp add: spec_mod_def field_simps)
  then have "\<lfloor>spec_mod seconds 3600 / 60\<rfloor> = \<lfloor>seconds / 60\<rfloor> - 60 * \<lfloor>seconds / 3600\<rfloor>"
    by (simp only: floor_diff_of_int)
  then have m: "ts_minutes seconds = spec_minutes seconds"
    using assms(2) by (simp add: ts_minutes_floor spec_minutes_def)
  have "spec_mod seconds 60 = seconds - of_int (60 * \<lfloor>seconds / 60\<rfloor>)"
    by (simp add: spec_mod_def)
  then have "\<lfloor>spec_mod seconds 60\<rfloor> = \<lfloor>seconds\<rfloor> - 60 * \<lfloor>seconds / 60\<rfloor>"
    by (simp only: floor_diff_of_int)
  then have s: "ts_secs seconds = spec_secs seconds"
    using assms(2) by (simp add: ts_secs_floor spec_secs_def)
  have h: "ts_hours seconds = spec_hours seconds" if "seconds < 2 ^ 53"
    using assms(2) that by (simp add: ts_hours_floor spec_hours_def)
  have f: "ts_milliseconds seconds = \<lfloor>fl ((seconds - of_int \<lfloor>seconds\<rfloor>) * 1000)\<rfloor>"
    using d assms(2) by (rule ts_milliseconds_double)
  have lo: "spec_millis seconds \<le> ts_milliseconds seconds"
    unfolding spec_millis_def using d assms(2) by (rule ts_milliseconds_near_floor)
  have hi: "ts_milliseconds seconds \<le> spec_millis seconds + 1"
    unfolding spec_millis_def using d assms(2) by (rule ts_milliseconds_near_floor)
  have b: "ts_milliseconds seconds \<le> 999"
    using d assms(2) by (rule ts_milliseconds_range)
  have e: "format_timestamp (Finite seconds) = Inr (spec_format_timecode seconds)"
    if "seconds < 2 ^ 53" "ts_milliseconds seconds = spec_millis seconds"
    using m s h [OF that(1)] that(2)
    by (simp add: format_timestamp_Finite timestamp_str_def spec_format_timecode_def)
  have e1: "format_timestamp (Finite (fl 1.9999)) = Inr (u ''00:00:01,999'')"
    by (simp only: fl_literals format_timestamp_Finite timestamp_str_literals)
  have e2: "format_timestamp (Finite (fl 3661.5)) = Inr (u ''01:01:01,500'')"
    by (simp add: fl_literals format_timestamp_Finite fmt_eval lit_eval)
  show ?thesis using m s h f lo hi b e e1 e2 by blast
qed

theorem format_timestamp_truncates_witness:
  "is_double (fl 1.9999) \<and> (0::rat) \<le> fl 1.9999 \<and> fl 1.9999 < 2 ^ 53 \<and>
   ts_hours (fl 1.9999) = spec_hours (fl 1.9999) \<and>
   ts_minutes (fl 1.9999) = spec_minutes (fl 1.9999) \<and>
   ts_secs (fl 1.9999) = spec_secs (fl 1.9999) \<and>
   spec_secs (fl 1.9999) = 1 \<and>
   ts_milliseconds (fl 1.9999) = spec_millis (fl 1.9999) \<and>
   spec_millis (fl 1.9999) = 999 \<and>
   format_timestamp (Finite (fl 1.9999)) = Inr (spec_format_timecode (fl 1.9999)) \<and>
   round ((fl 1.9999 - of_int \<lfloor>fl 1.9999\<rfloor>) * 1000) = 1000"
proof -
  let ?x = "9006748894778255 / 4503599627370496 :: rat"
  have x: "fl 1.9999 = ?x" by (rule fl_literals)
  have d: "is_double ?x" by (rule double_literals)
  have p: "0 \<le> ?x" "?x < 2 ^ 53" by simp_all
  have sm: "spec_millis ?x = 999" by (simp add: spec_millis_def floor_eval)
  have ms: "ts_milliseconds ?x = spec_millis ?x" by (simp only: sm ts_milliseconds_literals)
  have ss: "spec_secs ?x = 1" by (simp add: spec_secs_def spec_mod_def floor_eval)
  have r: "round ((?x - of_int \<lfloor>?x\<rfloor>) * 1000) = 1000" by (simp add: round_def floor_eval)
  note c = format_timestamp_truncates [OF d p(1)]
  from c p(2) have h: "ts_hours ?x = spec_hours ?x" by blast
  from c have m: "ts_minutes ?x = spec_minutes ?x" by blast
  from c have s: "ts_secs ?x = spec_secs ?x" by blast
  from c p(2) ms have e: "format_timestamp (Finite ?x) = Inr (spec_format_timecode ?x)"
    by blast
  show ?thesis unfolding x using d p h m s ss ms sm e r by blast
qed

theorem format_timestamp_truncates_counterexample:
  "is_double (fl 0.84) \<and> (0::rat) \<le> fl 0.84 \<and>
   fl 0.84 = 7566047373982433 / 9007199254740992 \<and>
   spec_millis (fl 0.84) = 839 \<and>
   ts_milliseconds (fl 0.84) = 840 \<and>
   format_timestamp (Finite (fl 0.84)) = Inr (u ''00:00:00,840'') \<and>
   spec_format_timecode (fl 0.84) = u ''00:00:00,839'' \<and>
   is_double 100000000000000000000 \<and>
   spec_hours 100000000000000000000 = 27777777777777777 \<and>
   ts_hours 100000000000000000000 = 27777777777777776"
proof -
  let ?x = "7566047373982433 / 9007199254740992 :: rat"
  have x: "fl 0.84 = ?x" by (rule fl_literals)
  have sm: "spec_millis ?x = 839" by (simp add: spec_millis_def floor_eval)
  have sf: "spec_format_timecode ?x = u ''00:00:00,839''"
    by (simp add: spec_format_timecode_def sm spec_hours_def spec_minutes_def spec_secs_def
        spec_mod_def floor_eval fmt_0d_def zfill_def digits.simps replicate_num lit_eval)
  have sh: "spec_hours 100000000000000000000 = 27777777777777777"
    by (simp add: spec_hours_def floor_eval)
  have p: "0 \<le> ?x" by simp
  show ?thesis
    unfolding x
    using double_literals(2,3) p sm ts_milliseconds_literals(2) sf sh ts_hours_1e20
      timestamp_str_literals(2) by (simp add: format_timestamp_Finite)
qed

section \<open>The shape of a timecode\<close>

text \<open>
  C8 (as amended).  For every finite float \<open>seconds \<ge> 0\<close>, \<open>format_timestamp\<close> returns
  hours, a colon, minutes, a colon, secs, a comma and milliseconds, each field made of
  decimal digits only: minutes and secs have exactly two digits and a value from 0 to
  59, milliseconds has exactly three digits and a value from 0 to 999, and hours has at
  least two digits and is the whole number of hours the function computed, however
  large (nothing wraps at 99); that number is the floor of \<open>seconds / 3600\<close> when
  \<open>seconds\<close> is below \<open>2 ^ 53\<close>.  On the non-negative float \<open>inf\<close> no string is
  returned: the call raises ValueError.
\<close>

theorem format_timestamp_shape:
  assumes "is_double seconds" and "0 \<le> seconds"
  shows "\<exists>H M S F.
           format_timestamp (Finite seconds) =
             Inr (H @ u '':'' @ M @ u '':'' @ S @ u '','' @ F) \<and>
           list_all is_digit H \<and> list_all is_digit M \<and> list_all is_digit S \<and>
           list_all is_digit F \<and>
           2 \<le> length H \<and> length M = 2 \<and> length S = 2 \<and> length F = 3 \<and>
           int (dec H) = ts_hours seconds \<and>
           (seconds < 2 ^ 53 \<longrightarrow> int (dec H) = \<lfloor>seconds / 3600\<rfloor>) \<and>
           int (dec M) = ts_minutes seconds \<and> dec M \<le> 59 \<and>
           int (dec S) = ts_secs seconds \<and> dec S \<le> 59 \<and>
           int (dec F) = ts_milliseconds seconds \<and> dec F \<le> 999"
proof -
  let ?H = "fmt_0d 2 (ts_hours seconds)" and ?M = "fmt_0d 2 (ts_minutes seconds)"
  let ?S = "fmt_0d 2 (ts_secs seconds)" and ?F = "fmt_0d 3 (ts_milliseconds seconds)"
  note d = is_doubleD [OF assms(1)]
  note h = ts_hours_nonneg [OF assms(2)]
  note m = ts_minutes_range [OF assms(2)]
  note s = ts_secs_range [OF assms(2)]
  note f = ts_milliseconds_range [OF d assms(2)]
  have shape: "format_timestamp (Finite seconds) =
      Inr (?H @ u '':'' @ ?M @ u '':'' @ ?S @ u '','' @ ?F)"
    by (simp add: format_timestamp_Finite timestamp_str_def)
  have dig: "list_all is_digit ?H" "list_all is_digit ?M" "list_all is_digit ?S"
    "list_all is_digit ?F"
    using h m(1) s(1) f(1) by (simp_all add: fmt_0d_all_digit)
  have lh: "2 \<le> length ?H" by (rule length_fmt_0d_ge)
  have lm: "length ?M = 2" using m by (intro length_fmt_0d_eq) simp_all
  have ls: "length ?S = 2" using s by (intro length_fmt_0d_eq) simp_all
  have lf: "length ?F = 3" using f by (intro length_fmt_0d_eq) simp_all
  have dh: "int (dec ?H) = ts_hours seconds" using h by (rule dec_fmt_0d)
  have dx: "int (dec ?H) = \<lfloor>seconds / 3600\<rfloor>" if "seconds < 2 ^ 53"
    using dh ts_hours_floor [OF assms(2) that] by simp
  have dm: "int (dec ?M) = ts_minutes seconds" using m(1) by (rule dec_fmt_0d)
  have ds: "int (dec ?S) = ts_secs seconds" using s(1) by (rule dec_fmt_0d)
  have df: "int (dec ?F) = ts_milliseconds seconds" using f(1) by (rule dec_fmt_0d)
  have bm: "dec ?M \<le> 59" using dm m(2) by linarith
  have bs: "dec ?S \<le> 59" using ds s(2) by linarith
  have bf: "dec ?F \<le> 999" using df f(2) by linarith
  show ?thesis
    using shape dig lh lm ls lf dh dx dm ds df bm bs bf by blast
qed

theorem format_timestamp_shape_witness:
  "is_double 360000 \<and> (0::rat) \<le> 360000 \<and> (360000::rat) < 2 ^ 53 \<and>
   (\<exists>H M S F.
      format_timestamp (Finite 360000) = Inr (H @ u '':'' @ M @ u '':'' @ S @ u '','' @ F) \<and>
      list_all is_digit H \<and> list_all is_digit M \<and> list_all is_digit S \<and>
      list_all is_digit F \<and>
      2 \<le> length H \<and> length M = 2 \<and> length S = 2 \<and> length F = 3 \<and>
      int (dec H) = 100 \<and> dec M \<le> 59 \<and> dec S \<le> 59 \<and> dec F \<le> 999) \<and>
   format_timestamp (Finite 360000) = Inr (u ''100:00:00,000'')"
proof -
  have d: "is_double 360000" by (simp add: is_double_def fl_lit)
  have p: "(0::rat) \<le> 360000" "(360000::rat) < 2 ^ 53" by simp_all
  have e: "format_timestamp (Finite 360000) = Inr (u ''100:00:00,000'')"
    by (simp add: format_timestamp_Finite fmt_eval lit_eval)
  have fl: "\<lfloor>(360000::rat) / 3600\<rfloor> = 100" by (simp add: floor_eval)
  show ?thesis
    using format_timestamp_shape [OF d p(1)] d p e fl by auto
qed

theorem format_timestamp_shape_counterexample:
  "format_timestamp PosInf = Inl ValueError \<and> format_timestamp NaN = Inl ValueError"
  by (simp add: format_timestamp_def)

section \<open>Comparing timecodes as strings\<close>

lemma lex_append_same: "lexordp_eq (a @ x) (a @ y) = lexordp_eq x (y :: nat list)"
  by (induction a) simp_all

lemma lex_append_less:
  "length a = length b \<Longrightarrow> lexordp_eq a b \<Longrightarrow> a \<noteq> b \<Longrightarrow> lexordp_eq (a @ x) (b @ (y :: nat list))"
proof (induction a b rule: list_induct2)
  case Nil
  then show ?case by simp
next
  case (Cons c cs d ds)
  then show ?case by (cases "c < d") auto
qed

lemma dec_less_pow: "list_all is_digit xs \<Longrightarrow> dec xs < 10 ^ length xs"
proof (induction xs)
  case Nil
  then show ?case by simp
next
  case (Cons d ds)
  then have "d - 48 \<le> 9" and ih: "dec ds < 10 ^ length ds" by (auto simp: is_digit_def)
  then have "(d - 48) * 10 ^ length ds \<le> 9 * 10 ^ length ds" by (intro mult_le_mono1)
  then have "(d - 48) * 10 ^ length ds + dec ds < 9 * 10 ^ length ds + 10 ^ length ds"
    using ih by (rule add_le_less_mono)
  then show ?case by simp
qed

lemma lex_digits:
  "length a = length b \<Longrightarrow> list_all is_digit a \<Longrightarrow> list_all is_digit b \<Longrightarrow>
   dec a \<le> dec b \<Longrightarrow> lexordp_eq a b"
proof (induction a b rule: list_induct2)
  case Nil
  then show ?case by simp
next
  case (Cons c cs d ds)
  let ?p = "(10::nat) ^ length ds"
  have len: "length cs = length ds" by fact
  have cd: "48 \<le> c" "48 \<le> d" using Cons.prems by (simp_all add: is_digit_def)
  have bc: "dec cs < ?p" using Cons.prems len dec_less_pow [of cs] by simp
  have bd: "dec ds < ?p" using Cons.prems dec_less_pow [of ds] by simp
  have le: "(c - 48) * ?p + dec cs \<le> (d - 48) * ?p + dec ds"
    using Cons.prems len by simp
  show ?case
  proof (cases "c < d")
    case True
    then show ?thesis by simp
  next
    case False
    have "c = d"
    proof (rule ccontr)
      assume "c \<noteq> d"
      with False cd have "Suc (d - 48) \<le> c - 48" by linarith
      then have "Suc (d - 48) * ?p \<le> (c - 48) * ?p" by (rule mult_le_mono1)
      then have "?p + (d - 48) * ?p \<le> (c - 48) * ?p" by (simp only: mult_Suc)
      with bd le show False by linarith
    qed
    with le have "dec cs \<le> dec ds" by simp
    with Cons \<open>c = d\<close> show ?thesis by simp
  qed
qed

lemma lex_field:
  assumes "0 \<le> m" "m \<le> n" "length (fmt_0d w m) = length (fmt_0d w n)"
    and "m = n \<Longrightarrow> lexordp_eq x y"
  shows "lexordp_eq (fmt_0d w m @ x) (fmt_0d w n @ y)"
proof (cases "m = n")
  case True
  with assms(4) show ?thesis by (simp add: lex_append_same)
next
  case False
  have n: "0 \<le> n" using assms by simp
  have "dec (fmt_0d w m) \<le> dec (fmt_0d w n)"
    using dec_fmt_0d [OF assms(1), of w] dec_fmt_0d [OF n, of w] assms(2) by linarith
  then have "lexordp_eq (fmt_0d w m) (fmt_0d w n)"
    using assms(1,3) n by (intro lex_digits fmt_0d_all_digit)
  moreover have "fmt_0d w m \<noteq> fmt_0d w n"
    using dec_fmt_0d [OF assms(1), of w] dec_fmt_0d [OF n, of w] False by auto
  ultimately show ?thesis using assms(3) by (intro lex_append_less)
qed

lemma lex_field_sep:
  assumes "0 \<le> m" "m \<le> n" "length (fmt_0d w m) = length (fmt_0d w n)"
    and "m = n \<Longrightarrow> lexordp_eq x y"
  shows "lexordp_eq (fmt_0d w m @ c # x) (fmt_0d w n @ c # y)"
  using assms by (intro lex_field) simp_all

text \<open>
  C2 (as amended).  For every pair of finite floats with \<open>end \<ge> start \<ge> 0\<close> and \<open>end\<close>
  below 360000 seconds (100 hours), the string \<open>format_timestamp\<close> returns for \<open>end\<close> is
  lexicographically greater than or equal to the one it returns for \<open>start\<close>; the same
  holds up to \<open>2 ^ 53\<close> seconds whenever the two hours fields are rendered with the same
  number of digits.  Across a change in the width of the hours field the order of the
  strings is not the order of the times: \<open>99:00:00,000\<close> is above \<open>100:00:00,000\<close>.
\<close>

theorem timecode_order:
  assumes "is_double start" and "is_double end'" and "0 \<le> start" and "start \<le> end'"
    and "end' < 360000 \<or>
         (end' < 2 ^ 53 \<and>
          length (fmt_0d 2 (ts_hours start)) = length (fmt_0d 2 (ts_hours end')))"
  shows "\<exists>a b. format_timestamp (Finite start) = Inr a \<and>
               format_timestamp (Finite end') = Inr b \<and> py_str_le a b"
proof -
  note ds = is_doubleD [OF assms(1)] and de = is_doubleD [OF assms(2)]
  note s0 = assms(3) and le = assms(4)
  have e0: "0 \<le> end'" using s0 le by simp
  have e53: "end' < 2 ^ 53" using assms(5) by auto
  then have s53: "start < 2 ^ 53" using le by simp
  note hs = ts_hours_floor [OF s0 s53] and he = ts_hours_floor [OF e0 e53]
  note ms = ts_minutes_floor [OF s0] and me = ts_minutes_floor [OF e0]
  note ss = ts_secs_floor [OF s0] and se = ts_secs_floor [OF e0]
  have len_h: "length (fmt_0d 2 (ts_hours start)) = length (fmt_0d 2 (ts_hours end'))"
  proof (cases "end' < 360000")
    case True
    then have "start < 360000" using le by simp
    with True s0 e0 show ?thesis by (simp add: length_hours_below_100)
  next
    case False
    with assms(5) show ?thesis by simp
  qed
  have q: "\<lfloor>start / 60\<rfloor> \<le> \<lfloor>end' / 60\<rfloor>"
    using le by (simp add: floor_mono divide_right_mono)
  have a: "\<lfloor>start\<rfloor> \<le> \<lfloor>end'\<rfloor>" using le by (rule floor_mono)
  have millis: "lexordp_eq (fmt_0d 3 (ts_milliseconds start)) (fmt_0d 3 (ts_milliseconds end'))"
    if "\<lfloor>start\<rfloor> = \<lfloor>end'\<rfloor>"
  proof -
    have "ts_milliseconds start \<le> ts_milliseconds end'"
      using ds de s0 le that by (rule ts_milliseconds_mono)
    then have "lexordp_eq (fmt_0d 3 (ts_milliseconds start) @ [])
                 (fmt_0d 3 (ts_milliseconds end') @ [])"
      using ts_milliseconds_range(1) [OF ds s0]
      by (intro lex_field) (simp_all add: length_milliseconds ds de s0 e0)
    then show ?thesis by simp
  qed
  have secs: "lexordp_eq (fmt_0d 2 (ts_secs start) @ 44 # fmt_0d 3 (ts_milliseconds start))
                (fmt_0d 2 (ts_secs end') @ 44 # fmt_0d 3 (ts_milliseconds end'))"
    if "\<lfloor>start / 60\<rfloor> = \<lfloor>end' / 60\<rfloor>"
  proof (rule lex_field_sep)
    show "0 \<le> ts_secs start" using s0 by (rule ts_secs_range)
    show "ts_secs start \<le> ts_secs end'" using that a by (simp add: ss se)
    show "length (fmt_0d 2 (ts_secs start)) = length (fmt_0d 2 (ts_secs end'))"
      using s0 e0 by (simp add: length_secs)
    assume "ts_secs start = ts_secs end'"
    with that have "\<lfloor>start\<rfloor> = \<lfloor>end'\<rfloor>" by (simp add: ss se)
    then show "lexordp_eq (fmt_0d 3 (ts_milliseconds start)) (fmt_0d 3 (ts_milliseconds end'))"
      by (rule millis)
  qed
  have mins: "lexordp_eq
                (fmt_0d 2 (ts_minutes start) @ 58 # fmt_0d 2 (ts_secs start) @
                   44 # fmt_0d 3 (ts_milliseconds start))
                (fmt_0d 2 (ts_minutes end') @ 58 # fmt_0d 2 (ts_secs end') @
                   44 # fmt_0d 3 (ts_milliseconds end'))"
    if "ts_hours start = ts_hours end'"
  proof (rule lex_field_sep)
    have h: "\<lfloor>start / 3600\<rfloor> = \<lfloor>end' / 3600\<rfloor>" using that by (simp add: hs he)
    show "0 \<le> ts_minutes start" using s0 by (rule ts_minutes_range)
    show "ts_minutes start \<le> ts_minutes end'" using h q by (simp add: ms me)
    show "length (fmt_0d 2 (ts_minutes start)) = length (fmt_0d 2 (ts_minutes end'))"
      using s0 e0 by (simp add: length_minutes)
    assume "ts_minutes start = ts_minutes end'"
    with h have "\<lfloor>start / 60\<rfloor> = \<lfloor>end' / 60\<rfloor>" by (simp add: ms me)
    then show "lexordp_eq (fmt_0d 2 (ts_secs start) @ 44 # fmt_0d 3 (ts_milliseconds start))
                 (fmt_0d 2 (ts_secs end') @ 44 # fmt_0d 3 (ts_milliseconds end'))"
      by (rule secs)
  qed
  have "lexordp_eq
          (fmt_0d 2 (ts_hours start) @ 58 # fmt_0d 2 (ts_minutes start) @ 58 #
             fmt_0d 2 (ts_secs start) @ 44 # fmt_0d 3 (ts_milliseconds start))
          (fmt_0d 2 (ts_hours end') @ 58 # fmt_0d 2 (ts_minutes end') @ 58 #
             fmt_0d 2 (ts_secs end') @ 44 # fmt_0d 3 (ts_milliseconds end'))"
    using ts_hours_nonneg [OF s0] ts_hours_mono [OF s0 le e53] len_h mins
    by (rule lex_field_sep)
  then have "py_str_le (timestamp_str start) (timestamp_str end')"
    by (simp add: py_str_le_def timestamp_str_def u_simps)
  then show ?thesis by (simp add: format_timestamp_Finite)
qed

theorem timecode_order_witness:
  "is_double 1.5 \<and> is_double 3.25 \<and> (0::rat) \<le> 1.5 \<and> (1.5::rat) \<le> 3.25 \<and>
   (3.25::rat) < 360000 \<and>
   format_timestamp (Finite 1.5) = Inr (u ''00:00:01,500'') \<and>
   format_timestamp (Finite 3.25) = Inr (u ''00:00:03,250'') \<and>
   py_str_le (u ''00:00:01,500'') (u ''00:00:03,250'') \<and>
   is_double 360000 \<and> is_double 360001.5 \<and> (0::rat) \<le> 360000 \<and>
   (360000::rat) \<le> 360001.5 \<and> (360001.5::rat) < 2 ^ 53 \<and>
   length (fmt_0d 2 (ts_hours 360000)) = length (fmt_0d 2 (ts_hours 360001.5)) \<and>
   format_timestamp (Finite 360000) = Inr (u ''100:00:00,000'') \<and>
   format_timestamp (Finite 360001.5) = Inr (u ''100:00:01,500'') \<and>
   py_str_le (u ''100:00:00,000'') (u ''100:00:01,500'')"
proof -
  have d: "is_double 1.5" "is_double 3.25" "is_double 360000" "is_double 360001.5"
    by (simp_all add: is_double_def fl_lit)
  have l: "length (fmt_0d 2 (ts_hours 360000)) = length (fmt_0d 2 (ts_hours 360001.5))"
    by (simp add: fmt_eval)
  have f: "format_timestamp (Finite 1.5) = Inr (u ''00:00:01,500'')"
    "format_timestamp (Finite 3.25) = Inr (u ''00:00:03,250'')"
    "format_timestamp (Finite 360000) = Inr (u ''100:00:00,000'')"
    "format_timestamp (Finite 360001.5) = Inr (u ''100:00:01,500'')"
    by (simp_all add: format_timestamp_Finite fmt_eval lit_eval)
  have "\<exists>a b. format_timestamp (Finite 1.5) = Inr a \<and>
      format_timestamp (Finite 3.25) = Inr b \<and> py_str_le a b"
    by (rule timecode_order [OF d(1) d(2)]) simp_all
  then obtain a b where "format_timestamp (Finite 1.5) = Inr a"
    "format_timestamp (Finite 3.25) = Inr b" "py_str_le a b" by blast
  with f(1,2) have 1: "py_str_le (u ''00:00:01,500'') (u ''00:00:03,250'')" by simp
  have "\<exists>a b. format_timestamp (Finite 360000) = Inr a \<and>
      format_timestamp (Finite 360001.5) = Inr b \<and> py_str_le a b"
    using l by (intro timecode_order [OF d(3) d(4)]) simp_all
  then obtain a' b' where "format_timestamp (Finite 360000) = Inr a'"
    "format_timestamp (Finite 360001.5) = Inr b'" "py_str_le a' b'" by blast
  with f(3,4) have 2: "py_str_le (u ''100:00:00,000'') (u ''100:00:01,500'')" by simp
  show ?thesis using d l f 1 2 by simp
qed

theorem timecode_order_counterexample:
  "is_double 356400 \<and> is_double 360000 \<and> (0::rat) \<le> 356400 \<and> (356400::rat) \<le> 360000 \<and>
   format_timestamp (Finite 356400) = Inr (u ''99:00:00,000'') \<and>
   format_timestamp (Finite 360000) = Inr (u ''100:00:00,000'') \<and>
   \<not> py_str_le (u ''99:00:00,000'') (u ''100:00:00,000'')"
proof -
  have d: "is_double 356400" "is_double 360000" by (simp_all add: is_double_def fl_lit)
  have f: "format_timestamp (Finite 356400) = Inr (u ''99:00:00,000'')"
    "format_timestamp (Finite 360000) = Inr (u ''100:00:00,000'')"
    by (simp_all add: format_timestamp_Finite fmt_eval lit_eval)
  have n: "\<not> py_str_le (u ''99:00:00,000'') (u ''100:00:00,000'')"
    by (simp add: py_str_le_def lit_eval)
  show ?thesis using d f n by simp
qed

section \<open>Sanitizing the text\<close>

lemma py_replace_no_prefix:
  "old \<noteq> [] \<Longrightarrow> \<not> prefix old (c # cs) \<Longrightarrow> py_replace old new (c # cs) = c # py_replace old new cs"
  by (subst py_replace.simps) simp

lemma py_replace_prefix:
  "old \<noteq> [] \<Longrightarrow> py_replace old new (old @ rest) = new @ py_replace old new rest"
  by (subst py_replace.simps) simp

lemma py_replace_empty: "old \<noteq> [] \<Longrightarrow> py_replace old new [] = []"
  by (subst py_replace.simps) simp

text \<open>A text without the pattern is returned as it is.\<close>

lemma py_replace_absent:
  "old \<noteq> [] \<Longrightarrow> \<not> sublist old s \<Longrightarrow> py_replace old new s = s"
proof (induction s)
  case Nil
  then show ?case by (simp add: py_replace_empty)
next
  case (Cons c cs)
  then have "\<not> prefix old (c # cs)" and "\<not> sublist old cs"
    by (simp_all add: sublist_Cons_right)
  with Cons show ?case by (simp add: py_replace_no_prefix)
qed


text \<open>
  When the replacement is one character that does not occur in the pattern, whatever the
  result starts with, up to that character, the argument started with too.
\<close>

lemma prefix_py_replace:
  assumes "old \<noteq> []"
  shows "g \<notin> set p \<Longrightarrow> prefix p (py_replace old [g] s) \<Longrightarrow> prefix p s"
proof (induction s arbitrary: p)
  case Nil
  then show ?case using assms by (simp add: py_replace_empty)
next
  case (Cons c cs)
  show ?case
  proof (cases "prefix old (c # cs)")
    case True
    then obtain rest where "c # cs = old @ rest" by (auto simp: prefix_def)
    then have "py_replace old [g] (c # cs) = g # py_replace old [g] rest"
      using assms by (simp add: py_replace_prefix)
    with Cons.prems have "p = []" by (cases p) auto
    then show ?thesis by simp
  next
    case False
    then have r: "py_replace old [g] (c # cs) = c # py_replace old [g] cs"
      using assms by (simp add: py_replace_no_prefix)
    show ?thesis
    proof (cases p)
      case Nil
      then show ?thesis by simp
    next
      case (Cons d ds)
      with Cons.prems r have "d = c" "prefix ds (py_replace old [g] cs)" "g \<notin> set ds"
        by simp_all
      with Cons.IH [of ds] Cons show ?thesis by simp
    qed
  qed
qed

lemma py_replace_removes:
  assumes "old \<noteq> []" "g \<notin> set old"
  shows "\<not> sublist old (py_replace old [g] s)"
proof (induction s rule: measure_induct_rule [of length])
  case (less s)
  show ?case
  proof (cases s)
    case Nil
    then show ?thesis using assms by (simp add: py_replace_empty)
  next
    case (Cons c cs)
    obtain o1 os where old: "old = o1 # os" using assms(1) by (cases old) auto
    show ?thesis
    proof (cases "prefix old s")
      case True
      then obtain rest where s: "s = old @ rest" by (auto simp: prefix_def)
      then have "length rest < length s" using assms(1) by simp
      then have "\<not> sublist old (py_replace old [g] rest)" by (rule less)
      moreover have "\<not> prefix old (g # py_replace old [g] rest)"
        using assms(2) old by auto
      ultimately show ?thesis
        using assms(1) s by (simp add: py_replace_prefix sublist_Cons_right)
    next
      case False
      then have r: "py_replace old [g] s = c # py_replace old [g] cs"
        using assms(1) Cons by (simp add: py_replace_no_prefix)
      have "\<not> sublist old (py_replace old [g] cs)" using Cons by (intro less) simp
      moreover have "\<not> prefix old (c # py_replace old [g] cs)"
      proof
        assume "prefix old (c # py_replace old [g] cs)"
        then have "o1 = c" "prefix os (py_replace old [g] cs)" using old by auto
        moreover have "g \<notin> set os" using assms(2) old by simp
        ultimately have "prefix os cs" using prefix_py_replace [OF assms(1)] by blast
        with \<open>o1 = c\<close> old Cons False show False by simp
      qed
      ultimately show ?thesis using r by (simp add: sublist_Cons_right)
    qed
  qed
qed

lemma arrow_pattern: "u ''-->'' \<noteq> []" "8594 \<notin> set (u ''-->'')"
  by (simp_all add: u_simps)

lemma sanitize_no_separator: "\<not> sublist (u ''-->'') (sanitize t)"
  unfolding sanitize_def arrow_def by (rule py_replace_removes) (rule arrow_pattern)+

lemma py_replace_ends:
  assumes "old \<noteq> []"
  shows "s \<noteq> [] \<Longrightarrow>
     py_replace old [g] s \<noteq> [] \<and>
     (hd (py_replace old [g] s) = g \<or> hd (py_replace old [g] s) = hd s) \<and>
     (last (py_replace old [g] s) = g \<or> last (py_replace old [g] s) = last s)"
proof (induction s rule: measure_induct_rule [of length])
  case (less s)
  then obtain c cs where s: "s = c # cs" by (cases s) auto
  show ?case
  proof (cases "prefix old s")
    case True
    then obtain rest where sr: "s = old @ rest" by (auto simp: prefix_def)
    then have r: "py_replace old [g] s = g # py_replace old [g] rest"
      using assms by (simp add: py_replace_prefix)
    show ?thesis
    proof (cases "rest = []")
      case True
      with r assms show ?thesis by (simp add: py_replace_empty)
    next
      case False
      moreover have "length rest < length s" using sr assms by simp
      ultimately have "py_replace old [g] rest \<noteq> [] \<and>
          (last (py_replace old [g] rest) = g \<or> last (py_replace old [g] rest) = last rest)"
        using less.IH [of rest] by simp
      with r sr False show ?thesis by simp
    qed
  next
    case False
    then have r: "py_replace old [g] s = c # py_replace old [g] cs"
      using assms s by (simp add: py_replace_no_prefix)
    show ?thesis
    proof (cases "cs = []")
      case True
      with r s assms show ?thesis by (simp add: py_replace_empty)
    next
      case False
      then have "py_replace old [g] cs \<noteq> [] \<and>
          (last (py_replace old [g] cs) = g \<or> last (py_replace old [g] cs) = last cs)"
        using less.IH [of cs] s by simp
      with r s False show ?thesis by simp
    qed
  qed
qed

lemma py_strip_ends:
  "py_strip s = [] \<or> (\<not> py_isspace (hd (py_strip s)) \<and> \<not> py_isspace (last (py_strip s)))"
proof (cases "py_strip s = []")
  case True
  then show ?thesis by simp
next
  case False
  let ?a = "dropWhile py_isspace s"
  let ?b = "dropWhile py_isspace (rev ?a)"
  have b: "?b \<noteq> []" using False by (simp add: py_strip_def)
  then have hb: "\<not> py_isspace (hd ?b)" by (rule hd_dropWhile)
  have a: "?a \<noteq> []"
  proof
    assume "?a = []"
    then have "?b = []" by (simp only: rev.simps dropWhile.simps)
    with b show False by simp
  qed
  then have ha: "\<not> py_isspace (hd ?a)" by (rule hd_dropWhile)
  have "suffix ?b (rev ?a)" by (rule suffix_dropWhile)
  then obtain pre where "rev ?a = pre @ ?b" by (auto simp: suffix_def)
  then have "last (rev ?a) = last ?b" using b by (metis last_appendR)
  then have "last ?b = hd ?a" using a by (simp add: last_rev)
  then have "hd (py_strip s) = hd ?a" using b by (simp add: py_strip_def hd_rev)
  moreover have "last (py_strip s) = hd ?b" using b by (simp add: py_strip_def last_rev)
  ultimately show ?thesis using ha hb by simp
qed

lemma py_strip_fixed:
  assumes "x = [] \<or> (\<not> py_isspace (hd x) \<and> \<not> py_isspace (last x))"
  shows "py_strip x = x"
proof (cases x)
  case Nil
  then show ?thesis by (simp add: py_strip_def)
next
  case (Cons c cs)
  with assms have h: "\<not> py_isspace c" and l: "\<not> py_isspace (last x)" by simp_all
  have "dropWhile py_isspace x = x" using h Cons by simp
  moreover have "dropWhile py_isspace (rev x) = rev x"
  proof -
    have "x = butlast x @ [last x]" using Cons by simp
    then have "rev x = rev (butlast x @ [last x])" by (rule arg_cong)
    then have r: "rev x = last x # rev (butlast x)" by simp
    have "dropWhile py_isspace (last x # rev (butlast x)) = last x # rev (butlast x)"
      using l by simp
    then show ?thesis by (simp only: r)
  qed
  ultimately show ?thesis by (simp add: py_strip_def)
qed

lemma arrow_not_space: "\<not> py_isspace 8594"
  by (simp add: py_isspace_def)

text \<open>
  C10.  Sanitizing is idempotent: for every string, stripping it and replacing every
  \<open>-->\<close> by U+2192, and then doing both again, gives what doing both once gives.  The
  replacement leaves no white space at either end and no \<open>-->\<close> behind.
\<close>

theorem sanitize_idempotent: "sanitize (sanitize s) = sanitize s"
proof -
  let ?w = "py_strip s"
  let ?v = "py_replace (u ''-->'') [8594] ?w"
  have v: "sanitize s = ?v" by (simp add: sanitize_def arrow_def)
  have "?v = [] \<or> (\<not> py_isspace (hd ?v) \<and> \<not> py_isspace (last ?v))"
  proof (cases "?w = []")
    case True
    then show ?thesis by (simp add: py_replace_empty arrow_pattern)
  next
    case False
    with py_strip_ends [of s]
    have "\<not> py_isspace (hd ?w)" "\<not> py_isspace (last ?w)" by simp_all
    with py_replace_ends [OF arrow_pattern(1) False, of 8594] arrow_not_space
    show ?thesis by auto
  qed
  then have "py_strip ?v = ?v" by (rule py_strip_fixed)
  moreover have "py_replace (u ''-->'') [8594] ?v = ?v"
    using arrow_pattern(1) sanitize_no_separator [of s] v
    by (intro py_replace_absent) simp_all
  ultimately show ?thesis by (simp add: sanitize_def arrow_def)
qed

section \<open>The loop of write_srt\<close>

lemma loop_locals_well_formed:
  "well_formed seg \<Longrightarrow>
   loop_locals seg =
     Inr (timestamp_str (seg_start seg), timestamp_str (seg_end seg),
          sanitize (seg_text seg))"
  by (auto simp: well_formed_def loop_locals_def and_then_def getitem_def timestamp_of_def
      text_of_def seg_start_def seg_end_def seg_text_def format_timestamp_Finite
      split: option.splits pyval.splits pyfloat.splits)

lemma loop_body_well_formed:
  "well_formed seg \<Longrightarrow> loop_body i seg file = (Inr (), file @ entry i seg)"
  by (simp add: loop_body_def loop_locals_well_formed file_write_def entry_def)

lemma loop_locals_no_text:
  "seg ''start'' = Some (Float (Finite s)) \<Longrightarrow> seg ''end'' = Some (Float (Finite e)) \<Longrightarrow>
   seg ''text'' = None \<Longrightarrow> loop_locals seg = Inl KeyError"
  by (simp add: loop_locals_def and_then_def getitem_def timestamp_of_def
      format_timestamp_Finite)

text \<open>The first line of the loop body decides before the second is looked at.\<close>

lemma loop_locals_start:
  "seg ''start'' = None \<Longrightarrow> loop_locals seg = Inl KeyError"
  "seg ''start'' = Some (Str x) \<Longrightarrow> loop_locals seg = Inl TypeError"
  "seg ''start'' = Some (Float PosInf) \<Longrightarrow> loop_locals seg = Inl ValueError"
  "seg ''start'' = Some (Float NegInf) \<Longrightarrow> loop_locals seg = Inl ValueError"
  "seg ''start'' = Some (Float NaN) \<Longrightarrow> loop_locals seg = Inl ValueError"
  by (simp_all add: loop_locals_def and_then_def getitem_def timestamp_of_def
      format_timestamp_def)

lemma loop_locals_end:
  assumes "seg ''start'' = Some (Float (Finite s))"
  shows "seg ''end'' = None \<Longrightarrow> loop_locals seg = Inl KeyError"
    and "seg ''end'' = Some (Str x) \<Longrightarrow> loop_locals seg = Inl TypeError"
    and "seg ''end'' = Some (Float PosInf) \<Longrightarrow> loop_locals seg = Inl ValueError"
    and "seg ''end'' = Some (Float NegInf) \<Longrightarrow> loop_locals seg = Inl ValueError"
    and "seg ''end'' = Some (Float NaN) \<Longrightarrow> loop_locals seg = Inl ValueError"
  using assms
  by (simp_all add: loop_locals_def and_then_def getitem_def timestamp_of_def
      format_timestamp_def)

lemma loop_body_raises:
  "loop_locals seg = Inl e \<Longrightarrow> loop_body i seg file = (Inl e, file)"
  by (simp add: loop_body_def)

lemma write_srt_from_well_formed:
  "\<forall>seg \<in> set segs. well_formed seg \<Longrightarrow>
   write_srt_from i segs f = (Inr (), f @ entries_from i segs)"
  by (induction segs arbitrary: i f) (simp_all add: loop_body_well_formed)

lemma write_srt_from_raises:
  "\<forall>seg \<in> set good. well_formed seg \<Longrightarrow> loop_locals bad = Inl e \<Longrightarrow>
   write_srt_from i (good @ bad # rest) f = (Inl e, f @ entries_from i good)"
  by (induction good arbitrary: i f) (simp_all add: loop_body_well_formed loop_body_raises)

lemma length_entries_from: "length (entries_from i segs) = 3 * length segs"
  by (induction segs arbitrary: i) (simp_all add: entry_def)

lemma entries_from_nth:
  "k < length segs \<Longrightarrow>
   entries_from i segs ! (3 * k) = py_str_int (i + int k) @ nl \<and>
   entries_from i segs ! (3 * k + 1) =
     timestamp_str (seg_start (segs ! k)) @ u '' --> '' @
     timestamp_str (seg_end (segs ! k)) @ nl \<and>
   entries_from i segs ! (3 * k + 2) = sanitize (seg_text (segs ! k)) @ nl @ nl"
proof (induction segs arbitrary: i k)
  case Nil
  then show ?case by simp
next
  case (Cons seg segs)
  show ?case
  proof (cases k)
    case 0
    then show ?thesis by (simp add: entry_def)
  next
    case (Suc j)
    then have j: "j < length segs" using Cons.prems by simp
    have l: "length (entry i seg) = 3" by (simp add: entry_def)
    have "i + 1 + int j = i + int (Suc j)" by simp
    with Cons.IH [OF j, of "i + 1"] show ?thesis
      unfolding Suc by (simp add: nth_append l)
  qed
qed

lemma well_formed_mk_segment: "well_formed (mk_segment s e t)"
  by (simp add: well_formed_def mk_segment_def)

lemma seg_fields_mk_segment:
  "seg_start (mk_segment s e t) = s" "seg_end (mk_segment s e t) = e"
  "seg_text (mk_segment s e t) = t"
  by (simp_all add: seg_start_def seg_end_def seg_text_def mk_segment_def)

lemma dec_py_str_int: "0 \<le> n \<Longrightarrow> int (dec (py_str_int n)) = n"
  by (simp add: py_str_int_def dec_digits)

lemma py_str_int_inj:
  assumes "0 \<le> m" "0 \<le> n" "py_str_int m = py_str_int n"
  shows "m = n"
proof -
  have "m = int (dec (py_str_int m))" using assms(1) by (rule dec_py_str_int [symmetric])
  also have "\<dots> = int (dec (py_str_int n))" by (simp only: assms(3))
  also have "\<dots> = n" using assms(2) by (rule dec_py_str_int)
  finally show ?thesis .
qed

lemma loop_locals_text_absent:
  assumes "seg ''text'' = None"
  shows "loop_locals seg = Inl KeyError \<or> loop_locals seg = Inl TypeError \<or>
         loop_locals seg = Inl ValueError"
    and "not_nonfinite (seg ''start'') \<Longrightarrow> not_nonfinite (seg ''end'') \<Longrightarrow>
         loop_locals seg = Inl KeyError \<or> loop_locals seg = Inl TypeError"
proof -
  have "(loop_locals seg = Inl KeyError \<or> loop_locals seg = Inl TypeError \<or>
         loop_locals seg = Inl ValueError) \<and>
        (not_nonfinite (seg ''start'') \<and> not_nonfinite (seg ''end'') \<longrightarrow>
         loop_locals seg = Inl KeyError \<or> loop_locals seg = Inl TypeError)"
  proof (cases "seg ''start''")
    case None
    then show ?thesis by (simp add: loop_locals_start)
  next
    case (Some sv)
    note s = this
    show ?thesis
    proof (cases sv)
      case (Str x)
      with s show ?thesis by (simp add: loop_locals_start)
    next
      case (Float f)
      note sf = this
      show ?thesis
      proof (cases f)
        case (Finite x)
        with s sf have st: "seg ''start'' = Some (Float (Finite x))" by simp
        show ?thesis
        proof (cases "seg ''end''")
          case None
          with st show ?thesis by (simp add: loop_locals_end)
        next
          case (Some ev)
          note e = this
          show ?thesis
          proof (cases ev)
            case (Str y)
            with e st show ?thesis by (simp add: loop_locals_end)
          next
            case (Float g)
            with e st assms show ?thesis
              by (cases g) (simp_all add: loop_locals_end loop_locals_no_text not_nonfinite_def)
          qed
        qed
      qed (use s sf in \<open>simp_all add: loop_locals_start not_nonfinite_def\<close>)
    qed
  qed
  then show "loop_locals seg = Inl KeyError \<or> loop_locals seg = Inl TypeError \<or>
         loop_locals seg = Inl ValueError"
    and "not_nonfinite (seg ''start'') \<Longrightarrow> not_nonfinite (seg ''end'') \<Longrightarrow>
         loop_locals seg = Inl KeyError \<or> loop_locals seg = Inl TypeError"
    by simp_all
qed

lemma sublist_append_foreign:
  assumes "p \<noteq> []" "last p \<notin> set z" "sublist p (t @ z)"
  shows "sublist p t"
proof -
  from assms(3) consider "sublist p t" | "sublist p z"
    | p1 p2 where "p = p1 @ p2" "suffix p1 t" "prefix p2 z"
    by (auto simp: sublist_append)
  then show ?thesis
  proof cases
    case 1
    then show ?thesis .
  next
    case 2
    then have "set p \<subseteq> set z" by (rule set_mono_sublist)
    with assms(1,2) show ?thesis using last_in_set by blast
  next
    case 3
    show ?thesis
    proof (cases "p2 = []")
      case True
      with 3 show ?thesis by simp
    next
      case False
      with 3(1) have "last p = last p2" by simp
      moreover have "set p2 \<subseteq> set z" using 3(3) by (rule set_mono_prefix)
      ultimately show ?thesis using False assms(2) last_in_set by fastforce
    qed
  qed
qed

lemma text_line_no_separator: "\<not> sublist (u ''-->'') (sanitize t @ nl @ nl)"
proof
  assume a: "sublist (u ''-->'') (sanitize t @ nl @ nl)"
  have p: "u ''-->'' \<noteq> []" and l: "last (u ''-->'') \<notin> set (nl @ nl)"
    by (simp_all add: u_simps nl_def)
  have "sublist (u ''-->'') (sanitize t)" using p l a by (rule sublist_append_foreign)
  then show False by (simp add: sanitize_no_separator)
qed

lemma write_srt_well_formed:
  "\<forall>seg \<in> set segments. well_formed seg \<Longrightarrow>
   write_srt segments [] = (Inr (), entries_from 1 segments)"
  by (simp add: write_srt_def write_srt_from_well_formed)

text \<open>
  C6.  For every input sequence of N segments (each with numeric \<open>start\<close> and \<open>end\<close> and
  a string \<open>text\<close>), \<open>write_srt\<close> returns normally and the sink holds exactly N entries
  of three writes each, in input order; the first write of entry number k (counting
  from 0) is the index line \<open>k + 1\<close>, so the index lines are 1 to N without gap,
  and no two of them are equal.
\<close>

theorem write_srt_index_contiguity:
  assumes "\<forall>seg \<in> set segments. well_formed seg"
  shows "fst (write_srt segments []) = Inr () \<and>
         snd (write_srt segments []) = entries_from 1 segments \<and>
         length (snd (write_srt segments [])) = 3 * length segments \<and>
         (\<forall>k < length segments.
            snd (write_srt segments []) ! (3 * k) = py_str_int (int k + 1) @ nl) \<and>
         distinct (map (\<lambda>k. py_str_int (int k + 1)) [0..<length segments])"
proof -
  have w: "write_srt segments [] = (Inr (), entries_from 1 segments)"
    using assms by (rule write_srt_well_formed)
  have idx: "entries_from 1 segments ! (3 * k) = py_str_int (int k + 1) @ nl"
    if "k < length segments" for k
    using entries_from_nth [OF that, of 1] by (simp add: add.commute)
  have "inj_on (\<lambda>k. py_str_int (int k + 1)) (set [0..<length segments])"
  proof (rule inj_onI)
    fix a b :: nat
    assume "py_str_int (int a + 1) = py_str_int (int b + 1)"
    then have "int a + 1 = int b + 1" by (intro py_str_int_inj) simp_all
    then show "a = b" by simp
  qed
  then have "distinct (map (\<lambda>k. py_str_int (int k + 1)) [0..<length segments])"
    by (simp add: distinct_map)
  with w idx show ?thesis by (simp add: length_entries_from)
qed

theorem write_srt_index_contiguity_witness:
  "well_formed (mk_segment 0 1.5 (u ''Hello'')) \<and>
   well_formed (mk_segment 1.5 3.25 (u ''World --> End'')) \<and>
   fst (write_srt
     [mk_segment 0 1.5 (u ''Hello''), mk_segment 1.5 3.25 (u ''World --> End'')] []) = Inr () \<and>
   length (snd (write_srt
     [mk_segment 0 1.5 (u ''Hello''), mk_segment 1.5 3.25 (u ''World --> End'')] [])) = 6 \<and>
   snd (write_srt
     [mk_segment 0 1.5 (u ''Hello''), mk_segment 1.5 3.25 (u ''World --> End'')] []) ! 0 =
     u ''1'' @ nl \<and>
   snd (write_srt
     [mk_segment 0 1.5 (u ''Hello''), mk_segment 1.5 3.25 (u ''World --> End'')] []) ! 3 =
     u ''2'' @ nl"
proof -
  let ?segs = "[mk_segment 0 1.5 (u ''Hello''), mk_segment 1.5 3.25 (u ''World --> End'')]"
  have wf: "\<forall>seg \<in> set ?segs. well_formed seg" by (simp add: well_formed_mk_segment)
  note c = write_srt_index_contiguity [OF wf]
  from c have r: "fst (write_srt ?segs []) = Inr ()" by (rule conjunct1)
  from c have "length (snd (write_srt ?segs [])) = 3 * length ?segs" by blast
  then have l: "length (snd (write_srt ?segs [])) = 6" by simp
  from c have idx: "\<forall>k < length ?segs.
      snd (write_srt ?segs []) ! (3 * k) = py_str_int (int k + 1) @ nl" by blast
  have "(0::nat) < length ?segs" by simp
  with idx have "snd (write_srt ?segs []) ! (3 * 0) = py_str_int (int 0 + 1) @ nl" by blast
  then have i0: "snd (write_srt ?segs []) ! 0 = py_str_int 1 @ nl" by simp
  have "(1::nat) < length ?segs" by simp
  with idx have "snd (write_srt ?segs []) ! (3 * 1) = py_str_int (int 1 + 1) @ nl" by blast
  then have i1: "snd (write_srt ?segs []) ! 3 = py_str_int 2 @ nl" by simp
  have d: "py_str_int 1 = u ''1''" "py_str_int 2 = u ''2''"
    by (simp_all add: py_str_int_def digits.simps u_simps)
  show ?thesis
    using well_formed_mk_segment r l i0 i1 unfolding d by blast
qed

text \<open>
  C7.  For every segment of a well-formed input, whatever its text, and so for every
  text that contains \<open>-->\<close> any number of times at any position, the third write of its
  entry is the sanitized text followed by two newlines, and \<open>-->\<close> occurs neither in the
  sanitized text nor in that line: the replacement creates no new occurrence.
\<close>

theorem write_srt_separator_safety:
  assumes "\<forall>seg \<in> set segments. well_formed seg" and "k < length segments"
  shows "snd (write_srt segments []) ! (3 * k + 2) =
           sanitize (seg_text (segments ! k)) @ nl @ nl \<and>
         \<not> sublist (u ''-->'') (sanitize (seg_text (segments ! k))) \<and>
         \<not> sublist (u ''-->'') (snd (write_srt segments []) ! (3 * k + 2))"
proof -
  have "write_srt segments [] = (Inr (), entries_from 1 segments)"
    using assms(1) by (rule write_srt_well_formed)
  then have "snd (write_srt segments []) ! (3 * k + 2) =
      sanitize (seg_text (segments ! k)) @ nl @ nl"
    using entries_from_nth [OF assms(2), of 1] by simp
  then show ?thesis
    using sanitize_no_separator text_line_no_separator by simp
qed

theorem write_srt_separator_safety_witness:
  "well_formed (mk_segment 0 1 (u '' a-->b --->c '')) \<and>
   (0::nat) < length [mk_segment 0 1 (u '' a-->b --->c '')] \<and>
   sublist (u ''-->'') (seg_text ([mk_segment 0 1 (u '' a-->b --->c '')] ! 0)) \<and>
   sanitize (seg_text ([mk_segment 0 1 (u '' a-->b --->c '')] ! 0)) =
     u ''a'' @ arrow @ u ''b -'' @ arrow @ u ''c'' \<and>
   snd (write_srt [mk_segment 0 1 (u '' a-->b --->c '')] []) ! (3 * 0 + 2) =
     sanitize (seg_text ([mk_segment 0 1 (u '' a-->b --->c '')] ! 0)) @ nl @ nl \<and>
   \<not> sublist (u ''-->'')
       (snd (write_srt [mk_segment 0 1 (u '' a-->b --->c '')] []) ! (3 * 0 + 2))"
proof -
  let ?segs = "[mk_segment 0 1 (u '' a-->b --->c '')]"
  have wf: "\<forall>seg \<in> set ?segs. well_formed seg" by (simp add: well_formed_mk_segment)
  have k: "(0::nat) < length ?segs" by simp
  note c = write_srt_separator_safety [OF wf k]
  have s: "sanitize (seg_text (?segs ! 0)) = u ''a'' @ arrow @ u ''b -'' @ arrow @ u ''c''"
    by (simp add: seg_fields_mk_segment text_eval lit_eval)
  have t: "sublist (u ''-->'') (seg_text (?segs ! 0))"
    by (simp add: seg_fields_mk_segment u_simps sublist_Cons_right)
  show ?thesis
    using well_formed_mk_segment k t s c by blast
qed

lemma write_srt_raises:
  "\<forall>seg \<in> set good. well_formed seg \<Longrightarrow> loop_locals bad = Inl e \<Longrightarrow>
   write_srt (good @ bad # rest) [] = (Inl e, entries_from 1 good)"
  by (simp add: write_srt_def write_srt_from_raises)

section \<open>Segments the specification calls invalid\<close>

text \<open>
  C1 (as amended).  \<open>write_srt\<close> does not validate the times of a segment: whenever every
  segment has finite float \<open>start\<close> and \<open>end\<close> and a string \<open>text\<close>, whatever the order
  or sign of the times, the call returns normally with every entry written.  A call
  fails only where a lookup or an operation of the loop body raises: at the first
  segment that lacks \<open>text\<close> it ends with KeyError (with TypeError when a time of that
  segment is a string, with ValueError when it is an infinity or a NaN), and at a
  segment whose \<open>start\<close> is an infinity or a NaN it ends with ValueError; in each case
  the entries of all earlier segments have been written in full and nothing of the
  failing segment is written.
\<close>

theorem write_srt_does_not_validate:
  assumes "\<forall>seg \<in> set good. well_formed seg"
  shows "write_srt good [] = (Inr (), entries_from 1 good) \<and>
         (bad ''text'' = None \<longrightarrow>
            (fst (write_srt (good @ bad # rest) []) = Inl KeyError \<or>
             fst (write_srt (good @ bad # rest) []) = Inl TypeError \<or>
             fst (write_srt (good @ bad # rest) []) = Inl ValueError) \<and>
            snd (write_srt (good @ bad # rest) []) = entries_from 1 good) \<and>
         (bad ''text'' = None \<and> not_nonfinite (bad ''start'') \<and> not_nonfinite (bad ''end'') \<longrightarrow>
            fst (write_srt (good @ bad # rest) []) = Inl KeyError \<or>
            fst (write_srt (good @ bad # rest) []) = Inl TypeError) \<and>
         (bad ''start'' = Some (Float (Finite s)) \<and> bad ''end'' = Some (Float (Finite e)) \<and>
          bad ''text'' = None \<longrightarrow>
            write_srt (good @ bad # rest) [] = (Inl KeyError, entries_from 1 good)) \<and>
         (bad ''start'' = Some (Float PosInf) \<or> bad ''start'' = Some (Float NegInf) \<or>
          bad ''start'' = Some (Float NaN) \<longrightarrow>
            write_srt (good @ bad # rest) [] = (Inl ValueError, entries_from 1 good))"
proof -
  have a: "write_srt good [] = (Inr (), entries_from 1 good)"
    using assms by (rule write_srt_well_formed)
  have r: "write_srt (good @ bad # rest) [] = (Inl err, entries_from 1 good)"
    if "loop_locals bad = Inl err" for err
    using assms that by (rule write_srt_raises)
  have b: "(fst (write_srt (good @ bad # rest) []) = Inl KeyError \<or>
            fst (write_srt (good @ bad # rest) []) = Inl TypeError \<or>
            fst (write_srt (good @ bad # rest) []) = Inl ValueError) \<and>
           snd (write_srt (good @ bad # rest) []) = entries_from 1 good"
    if "bad ''text'' = None"
  proof -
    from loop_locals_text_absent(1) [of bad] that
    consider "loop_locals bad = Inl KeyError" | "loop_locals bad = Inl TypeError"
      | "loop_locals bad = Inl ValueError" by blast
    then show ?thesis
    proof cases
      case 1
      then show ?thesis using r [of KeyError] by simp
    next
      case 2
      then show ?thesis using r [of TypeError] by simp
    next
      case 3
      then show ?thesis using r [of ValueError] by simp
    qed
  qed
  have c: "fst (write_srt (good @ bad # rest) []) = Inl KeyError \<or>
           fst (write_srt (good @ bad # rest) []) = Inl TypeError"
    if "bad ''text'' = None" "not_nonfinite (bad ''start'')" "not_nonfinite (bad ''end'')"
  proof -
    from loop_locals_text_absent(2) [of bad] that
    consider "loop_locals bad = Inl KeyError" | "loop_locals bad = Inl TypeError" by blast
    then show ?thesis
    proof cases
      case 1
      then show ?thesis using r [of KeyError] by simp
    next
      case 2
      then show ?thesis using r [of TypeError] by simp
    qed
  qed
  have d: "write_srt (good @ bad # rest) [] = (Inl KeyError, entries_from 1 good)"
    if "bad ''start'' = Some (Float (Finite s))" "bad ''end'' = Some (Float (Finite e))"
      "bad ''text'' = None"
    using loop_locals_no_text [of bad s e, OF that] by (rule r)
  have e: "write_srt (good @ bad # rest) [] = (Inl ValueError, entries_from 1 good)"
    if "bad ''start'' = Some (Float PosInf) \<or> bad ''start'' = Some (Float NegInf) \<or>
        bad ''start'' = Some (Float NaN)"
  proof -
    from that have "loop_locals bad = Inl ValueError" by (auto simp: loop_locals_start)
    then show ?thesis by (rule r)
  qed
  show ?thesis using a b c d e by blast
qed

theorem write_srt_does_not_validate_witness:
  "well_formed (mk_segment 5 2 (u ''x'')) \<and>
   well_formed (mk_segment (- 1) (- 0.5) (u ''y'')) \<and>
   write_srt [mk_segment 5 2 (u ''x''), mk_segment (- 1) (- 0.5) (u ''y'')] [] =
     (Inr (), entries_from 1 [mk_segment 5 2 (u ''x''), mk_segment (- 1) (- 0.5) (u ''y'')]) \<and>
   entries_from 1 [mk_segment 5 2 (u ''x''), mk_segment (- 1) (- 0.5) (u ''y'')] =
     [u ''1'' @ nl, u ''00:00:05,000 --> 00:00:02,000'' @ nl, u ''x'' @ nl @ nl,
      u ''2'' @ nl, u ''-1:59:59,000 --> -1:59:59,-500'' @ nl, u ''y'' @ nl @ nl] \<and>
   ((mk_segment 3 4 (u ''z''))(''text'' := None)) ''text'' = None \<and>
   write_srt
     ([mk_segment 5 2 (u ''x''), mk_segment (- 1) (- 0.5) (u ''y'')] @
      (mk_segment 3 4 (u ''z''))(''text'' := None) # [mk_segment 6 7 (u ''w'')]) [] =
     (Inl KeyError,
      entries_from 1 [mk_segment 5 2 (u ''x''), mk_segment (- 1) (- 0.5) (u ''y'')]) \<and>
   ((mk_segment 3 4 (u ''z''))(''start'' \<mapsto> Float PosInf)) ''start'' = Some (Float PosInf) \<and>
   write_srt
     ([mk_segment 5 2 (u ''x''), mk_segment (- 1) (- 0.5) (u ''y'')] @
      (mk_segment 3 4 (u ''z''))(''start'' \<mapsto> Float PosInf) # [mk_segment 6 7 (u ''w'')]) [] =
     (Inl ValueError,
      entries_from 1 [mk_segment 5 2 (u ''x''), mk_segment (- 1) (- 0.5) (u ''y'')])"
proof -
  let ?good = "[mk_segment 5 2 (u ''x''), mk_segment (- 1) (- 0.5) (u ''y'')]"
  let ?bad = "(mk_segment 3 4 (u ''z''))(''text'' := None)"
  let ?inf = "(mk_segment 3 4 (u ''z''))(''start'' \<mapsto> Float PosInf)"
  have wf: "\<forall>seg \<in> set ?good. well_formed seg" by (simp add: well_formed_mk_segment)
  have bs: "?bad ''start'' = Some (Float (Finite 3))"
    and be: "?bad ''end'' = Some (Float (Finite 4))"
    and bt: "?bad ''text'' = None"
    by (simp_all add: mk_segment_def)
  have ist: "?inf ''start'' = Some (Float PosInf)" by simp
  have ev: "entries_from 1 ?good =
     [u ''1'' @ nl, u ''00:00:05,000 --> 00:00:02,000'' @ nl, u ''x'' @ nl @ nl,
      u ''2'' @ nl, u ''-1:59:59,000 --> -1:59:59,-500'' @ nl, u ''y'' @ nl @ nl]"
    by (simp add: entry_def seg_fields_mk_segment fmt_eval text_eval lit_eval)
  note c = write_srt_does_not_validate
    [OF wf, where bad = ?bad and s = 3 and e = 4 and rest = "[mk_segment 6 7 (u ''w'')]"]
  note c' = write_srt_does_not_validate
    [OF wf, where bad = ?inf and rest = "[mk_segment 6 7 (u ''w'')]"]
  from c have a: "write_srt ?good [] = (Inr (), entries_from 1 ?good)" by (rule conjunct1)
  from c bs be bt
  have b: "write_srt (?good @ ?bad # [mk_segment 6 7 (u ''w'')]) [] =
      (Inl KeyError, entries_from 1 ?good)" by blast
  from c' ist
  have i: "write_srt (?good @ ?inf # [mk_segment 6 7 (u ''w'')]) [] =
      (Inl ValueError, entries_from 1 ?good)" by blast
  show ?thesis using well_formed_mk_segment a ev bt b ist i by blast
qed

theorem write_srt_invalid_segment_counterexample:
  "write_srt [mk_segment 5 2 (u ''x'')] [] =
     (Inr (), [u ''1'' @ nl, u ''00:00:05,000 --> 00:00:02,000'' @ nl, u ''x'' @ nl @ nl])"
  by (simp add: write_srt_def loop_body_mk_segment fmt_eval text_eval lit_eval)

section \<open>Runs of main\<close>

lemma seq_events:
  "fst (seq m k) = fst m @ (case snd m of Ret v \<Rightarrow> fst (k v) | _ \<Rightarrow> [])"
  by (cases m; cases "snd m") (auto simp: seq_def split: prod.splits)

lemma seq_result:
  "snd (seq m k) = (case snd m of Ret v \<Rightarrow> snd (k v) | Exit n \<Rightarrow> Exit n | Raise e \<Rightarrow> Raise e)"
  by (cases m; cases "snd m") (auto simp: seq_def split: prod.splits)

lemma say_simps: "snd (say v ms) = Ret ()" "VideoProduced \<notin> set (fst (say v ms))"
  "FfmpegRun \<notin> set (fst (say v ms))"
  by (auto simp: say_def)

lemma makedirs_simps: "snd (makedirs_unless b d) = Ret ()"
  "VideoProduced \<notin> set (fst (makedirs_unless b d))"
  "FfmpegRun \<notin> set (fst (makedirs_unless b d))"
  by (auto simp: makedirs_unless_def)

lemma has_audio_stream_result:
  "snd (has_audio_stream w) = (if probe_fails w then Exit 1 else Ret (has_audio w))"
  by (simp add: has_audio_stream_def probe_fails_def has_audio_def split: option.splits)

lemma has_audio_stream_events:
  "VideoProduced \<notin> set (fst (has_audio_stream w))" "FfmpegRun \<notin> set (fst (has_audio_stream w))"
  by (simp_all add: has_audio_stream_def split: option.splits)

lemma write_srt_file_result:
  "snd (write_srt_file segs) =
     (case fst (write_srt segs []) of Inl e \<Rightarrow> Raise e | Inr _ \<Rightarrow> Ret ())"
  by (simp add: write_srt_file_def split: prod.splits sum.splits)

lemma write_srt_file_events:
  "VideoProduced \<notin> set (fst (write_srt_file segs))" "FfmpegRun \<notin> set (fst (write_srt_file segs))"
  by (simp_all add: write_srt_file_def split: prod.splits sum.splits)

lemma extract_subtitles_events:
  "VideoProduced \<notin> set (fst (extract_subtitles a w))"
  "FfmpegRun \<notin> set (fst (extract_subtitles a w))"
  by (simp_all add: extract_subtitles_def seq_events seq_result say_simps makedirs_simps
      has_audio_stream_events write_srt_file_events load_model_def model_transcribe_def
      split: res.splits option.splits)

lemma extract_subtitles_result:
  "snd (extract_subtitles a w) =
     (if probe_fails w then Exit 1
      else if \<not> has_audio w then Ret None
      else if \<not> load_model_ok w then Raise WhisperError
      else case transcribe w of
             None \<Rightarrow> Raise WhisperError
           | Some segs \<Rightarrow>
               (case fst (write_srt segs []) of
                  Inl e \<Rightarrow> Raise e
                | Inr _ \<Rightarrow> Ret (Some (SrtPath (arg_subtitle_output_path a) (arg_input_file a)))))"
  by (simp add: extract_subtitles_def seq_result say_simps makedirs_simps
      has_audio_stream_result write_srt_file_result load_model_def model_transcribe_def
      split: res.splits option.splits sum.splits)


lemma transform_with_subtitles_result:
  "snd (transform_audio_to_video_with_subtitles a srt w) =
     (if probe_fails w then Exit 1
      else if \<not> has_audio w then Ret ()
      else if ffmpeg_run_ok w then Ret () else Raise AttributeError)"
  by (simp add: transform_audio_to_video_with_subtitles_def seq_result say_simps
      makedirs_simps has_audio_stream_result ffmpeg_run_def)

lemma main_extract_result:
  "snd (main_extract a w) =
     (if extraction_requested a then snd (extract_subtitles a w) else Ret None)"
  by (simp add: main_extract_def extraction_requested_def seq_result say_simps
      split: res.splits)

lemma main_extract_events:
  "VideoProduced \<notin> set (fst (main_extract a w))" "FfmpegRun \<notin> set (fst (main_extract a w))"
  by (simp_all add: main_extract_def seq_events seq_result say_simps extract_subtitles_events
      split: res.splits)

lemma main_audio_to_video_result:
  "snd (main_audio_to_video a) =
     (if arg_audio_to_video a \<or> arg_combine a then Raise NameError else Ret ())"
  by (simp add: main_audio_to_video_def seq_result say_simps transform_audio_to_video_def)

lemma main_audio_to_video_events:
  "VideoProduced \<notin> set (fst (main_audio_to_video a))"
  "FfmpegRun \<notin> set (fst (main_audio_to_video a))"
  by (simp_all add: main_audio_to_video_def seq_events seq_result say_simps
      transform_audio_to_video_def)

lemma main_with_subtitles_result:
  "snd (main_with_subtitles a srt_file w) =
     (if \<not> arg_audio_to_video_with_subtitles a then Ret ()
      else case srt_file of
             None \<Rightarrow> Exit 1
           | Some srt \<Rightarrow> snd (transform_audio_to_video_with_subtitles a srt w))"
  by (simp add: main_with_subtitles_def seq_result say_simps split: option.splits res.splits)

lemma create_check_simps:
  "snd (create_assets_directory w) = Ret ()"
  "VideoProduced \<notin> set (fst (create_assets_directory w))"
  "FfmpegRun \<notin> set (fst (create_assets_directory w))"
  "snd (check_file_exists w) = (if input_is_file w then Ret () else Exit 1)"
  "VideoProduced \<notin> set (fst (check_file_exists w))"
  "FfmpegRun \<notin> set (fst (check_file_exists w))"
  by (simp_all add: create_assets_directory_def makedirs_simps check_file_exists_def)

lemma main_result:
  "snd (main a w) =
     (if \<not> input_is_file w then Exit 1
      else case snd (main_extract a w) of
             Exit n \<Rightarrow> Exit n
           | Raise e \<Rightarrow> Raise e
           | Ret srt_file \<Rightarrow>
               if arg_audio_to_video a \<or> arg_combine a then Raise NameError
               else snd (main_with_subtitles a srt_file w))"
  by (simp add: main_def seq_result create_check_simps main_audio_to_video_result
      split: res.splits)

lemma main_missing_file:
  "\<not> input_is_file w \<Longrightarrow>
   main a w =
     ((if assets_dir_exists w then [] else [MakeDirs AssetsDir]) @ [Print MsgFileMissing],
      Exit 1)"
  by (simp add: main_def seq_def create_assets_directory_def makedirs_unless_def
      check_file_exists_def)

lemma main_no_video_when_unbound:
  assumes "arg_audio_to_video a \<or> arg_combine a"
  shows "VideoProduced \<notin> set (fst (main a w))" "FfmpegRun \<notin> set (fst (main a w))"
  using assms
  by (simp_all add: main_def seq_events seq_result create_check_simps main_extract_events
      main_audio_to_video_events main_audio_to_video_result split: res.splits)


lemma extract_subtitles_exit: "snd (extract_subtitles a w) = Exit n \<Longrightarrow> n = 1"
  by (simp add: extract_subtitles_result split: if_splits option.splits sum.splits)

lemma main_extract_exit: "snd (main_extract a w) = Exit n \<Longrightarrow> n = 1"
  by (simp add: main_extract_result extract_subtitles_exit split: if_splits)

section \<open>The mode that calls an unbound name\<close>

text \<open>
  C3.  In every invocation of \<open>main\<close> with \<open>--audio_to_video\<close> or \<open>--combine\<close> set, no
  video is produced (ffmpeg is not even run) and the process does not end with status
  0: it ends with status 1.  Whenever the input file exists and the extraction step,
  if it runs, returns, \<open>main\<close> ends in the NameError raised by the call of the unbound
  name \<open>transform_audio_to_video\<close>, which nothing catches.
\<close>

theorem main_audio_to_video_unbound:
  assumes "arg_audio_to_video a \<or> arg_combine a"
  shows "exit_status (main a w) = 1 \<and> \<not> returned (main a w) \<and>
         VideoProduced \<notin> set (events (main a w)) \<and>
         FfmpegRun \<notin> set (events (main a w)) \<and>
         (input_is_file w \<and> returned (main_extract a w) \<longrightarrow>
            snd (main a w) = Raise NameError)"
proof -
  have ev: "VideoProduced \<notin> set (events (main a w))" "FfmpegRun \<notin> set (events (main a w))"
    using main_no_video_when_unbound [OF assms] by (simp_all add: events_def)
  have res: "snd (main a w) = Exit 1 \<or> (\<exists>e. snd (main a w) = Raise e)"
  proof (cases "snd (main_extract a w)")
    case (Ret srt)
    with assms show ?thesis by (simp add: main_result)
  next
    case (Exit n)
    then have "n = 1" by (rule main_extract_exit)
    with Exit show ?thesis by (simp add: main_result)
  next
    case (Raise e)
    then show ?thesis by (simp add: main_result)
  qed
  then have st: "exit_status (main a w) = 1" "\<not> returned (main a w)"
    by (auto simp: exit_status_def returned_def)
  have ne: "snd (main a w) = Raise NameError"
    if "input_is_file w" "returned (main_extract a w)"
    using that assms by (simp add: main_result returned_def split: res.splits)
  show ?thesis using ev st ne by blast
qed

theorem main_audio_to_video_unbound_witness:
  "(arg_audio_to_video ((default_args ''a.mp3'')\<lparr>arg_combine := True\<rparr>) \<or>
    arg_combine ((default_args ''a.mp3'')\<lparr>arg_combine := True\<rparr>)) \<and>
   input_is_file good_world \<and>
   returned (main_extract ((default_args ''a.mp3'')\<lparr>arg_combine := True\<rparr>) good_world) \<and>
   snd (main ((default_args ''a.mp3'')\<lparr>arg_combine := True\<rparr>) good_world) = Raise NameError \<and>
   exit_status (main ((default_args ''a.mp3'')\<lparr>arg_combine := True\<rparr>) good_world) = 1 \<and>
   VideoProduced \<notin>
     set (events (main ((default_args ''a.mp3'')\<lparr>arg_combine := True\<rparr>) good_world))"
proof -
  let ?a = "(default_args ''a.mp3'')\<lparr>arg_combine := True\<rparr>"
  have f: "arg_audio_to_video ?a \<or> arg_combine ?a" by (simp add: default_args_def)
  have i: "input_is_file good_world" by (simp add: good_world_def)
  have w: "fst (write_srt [mk_segment 0 1 (u ''hi'')] []) = Inr ()"
    using write_srt_well_formed [of "[mk_segment 0 1 (u ''hi'')]"]
    by (simp add: well_formed_mk_segment)
  have r: "returned (main_extract ?a good_world)"
    by (simp add: returned_def main_extract_result extract_subtitles_result
        extraction_requested_def probe_fails_def has_audio_def default_args_def good_world_def w)
  show ?thesis
    using main_audio_to_video_unbound [OF f, of good_world] f i r by blast
qed


section \<open>Exit status\<close>

text \<open>
  C9 (as amended).  A missing input file is reported and the process ends with status
  1 before the input is probed, transcribed or transformed; at most the assets
  directory has been created.  For invocations that set neither \<open>--audio_to_video\<close> nor
  \<open>--combine\<close>, the status is 1 exactly when the input file is missing, or subtitle
  extraction is requested and probing the input fails or, the input having an audio
  track, transcription or writing the subtitles raises, or
  \<open>--audio_to_video_with_subtitles\<close> is set and the input lacks an audio track or the
  ffmpeg run fails (the run then ends in the AttributeError its own error handler
  raises); in every other such invocation the status is 0.  In particular
  \<open>--extract_subtitles\<close> alone on an input without audio track reports it and ends
  with status 0.
\<close>

theorem main_exit_status:
  "(\<not> input_is_file w \<longrightarrow>
      main a w =
        ((if assets_dir_exists w then [] else [MakeDirs AssetsDir]) @ [Print MsgFileMissing],
         Exit 1)) \<and>
   (\<not> arg_audio_to_video a \<and> \<not> arg_combine a \<longrightarrow>
      exit_status (main a w) =
        (if \<not> input_is_file w \<or>
            (extraction_requested a \<and>
               (probe_fails w \<or> (has_audio w \<and> transcription_raises w))) \<or>
            (arg_audio_to_video_with_subtitles a \<and> (lacks_audio w \<or> \<not> ffmpeg_run_ok w))
         then 1 else 0))"
proof (intro conjI impI)
  assume "\<not> input_is_file w"
  then show "main a w =
      ((if assets_dir_exists w then [] else [MakeDirs AssetsDir]) @ [Print MsgFileMissing],
       Exit 1)"
    by (rule main_missing_file)
next
  assume f: "\<not> arg_audio_to_video a \<and> \<not> arg_combine a"
  let ?fails = "\<not> input_is_file w \<or>
      (extraction_requested a \<and> (probe_fails w \<or> (has_audio w \<and> transcription_raises w))) \<or>
      (arg_audio_to_video_with_subtitles a \<and> (lacks_audio w \<or> \<not> ffmpeg_run_ok w))"
  have la: "lacks_audio w = (\<not> probe_fails w \<and> \<not> has_audio w)"
    by (simp add: lacks_audio_def probe_fails_def has_audio_def split: option.splits)
  have er: "arg_audio_to_video_with_subtitles a \<Longrightarrow> extraction_requested a"
    by (simp add: extraction_requested_def)
  show "exit_status (main a w) = (if ?fails then 1 else 0)"
  proof (cases "input_is_file w")
    case False
    then show ?thesis by (simp add: exit_status_def main_result)
  next
    case isfile: True
    show ?thesis
    proof (cases "extraction_requested a")
      case False
      with er have "\<not> arg_audio_to_video_with_subtitles a" by blast
      with False isfile f show ?thesis
        by (simp add: exit_status_def main_result main_extract_result
            main_with_subtitles_result)
    next
      case req: True
      show ?thesis
      proof (cases "probe_fails w")
        case True
        with req isfile show ?thesis
          by (simp add: exit_status_def main_result main_extract_result
              extract_subtitles_result)
      next
        case pr: False
        show ?thesis
        proof (cases "has_audio w")
          case False
          with pr req isfile f la show ?thesis
            by (simp add: exit_status_def main_result main_extract_result
                extract_subtitles_result main_with_subtitles_result)
        next
          case au: True
          show ?thesis
          proof (cases "transcription_raises w")
            case True
            with au pr req isfile f la show ?thesis
              by (auto simp: exit_status_def main_result main_extract_result
                  extract_subtitles_result transcription_raises_def
                  split: option.splits sum.splits)
          next
            case False
            with au pr req isfile f la show ?thesis
              by (auto simp: exit_status_def main_result main_extract_result
                  extract_subtitles_result transcription_raises_def
                  main_with_subtitles_result transform_with_subtitles_result
                  split: option.splits sum.splits)
          qed
        qed
      qed
    qed
  qed
qed


lemmas example_eval =
  default_args_def good_world_def extraction_requested_def probe_fails_def has_audio_def
  lacks_audio_def audio_requested_def

theorem main_exit_status_witness:
  "\<not> input_is_file (good_world\<lparr>input_is_file := False\<rparr>) \<and>
   main ((default_args ''v.mp4'')\<lparr>arg_extract_subtitles := True\<rparr>)
        (good_world\<lparr>input_is_file := False\<rparr>) =
     ([Print MsgFileMissing], Exit 1) \<and>
   \<not> arg_audio_to_video ((default_args ''v.mp4'')\<lparr>arg_extract_subtitles := True\<rparr>) \<and>
   \<not> arg_combine ((default_args ''v.mp4'')\<lparr>arg_extract_subtitles := True\<rparr>) \<and>
   exit_status (main ((default_args ''v.mp4'')\<lparr>arg_extract_subtitles := True\<rparr>)
                     (good_world\<lparr>probe := Some [Some ''video'']\<rparr>)) = 0 \<and>
   \<not> arg_audio_to_video
       ((default_args ''v.mp4'')\<lparr>arg_audio_to_video_with_subtitles := True\<rparr>) \<and>
   \<not> arg_combine ((default_args ''v.mp4'')\<lparr>arg_audio_to_video_with_subtitles := True\<rparr>) \<and>
   exit_status (main ((default_args ''v.mp4'')\<lparr>arg_audio_to_video_with_subtitles := True\<rparr>)
                     (good_world\<lparr>ffmpeg_run_ok := False\<rparr>)) = 1 \<and>
   exit_status (main ((default_args ''v.mp4'')\<lparr>arg_audio_to_video_with_subtitles := True\<rparr>)
                     good_world) = 0"
proof -
  let ?e = "(default_args ''v.mp4'')\<lparr>arg_extract_subtitles := True\<rparr>"
  let ?s = "(default_args ''v.mp4'')\<lparr>arg_audio_to_video_with_subtitles := True\<rparr>"
  have w: "fst (write_srt [mk_segment 0 1 (u ''hi'')] []) = Inr ()"
    using write_srt_well_formed [of "[mk_segment 0 1 (u ''hi'')]"]
    by (simp add: well_formed_mk_segment)
  have tr: "\<not> transcription_raises good_world"
    "\<not> transcription_raises (good_world\<lparr>ffmpeg_run_ok := False\<rparr>)"
    by (simp_all add: transcription_raises_def good_world_def w)
  have 1: "main ?e (good_world\<lparr>input_is_file := False\<rparr>) = ([Print MsgFileMissing], Exit 1)"
    using main_exit_status [of "good_world\<lparr>input_is_file := False\<rparr>" ?e]
    by (simp add: good_world_def)
  have 2: "exit_status (main ?e (good_world\<lparr>probe := Some [Some ''video'']\<rparr>)) = 0"
    using main_exit_status [of "good_world\<lparr>probe := Some [Some ''video'']\<rparr>" ?e]
    by (simp add: example_eval)
  have 3: "exit_status (main ?s (good_world\<lparr>ffmpeg_run_ok := False\<rparr>)) = 1"
    using main_exit_status [of "good_world\<lparr>ffmpeg_run_ok := False\<rparr>" ?s]
    by (simp add: example_eval)
  have 4: "exit_status (main ?s good_world) = 0"
    using main_exit_status [of good_world ?s] tr
    by (simp add: example_eval)
  show ?thesis using 1 2 3 4 by (simp add: default_args_def good_world_def)
qed

theorem main_exit_status_counterexample:
  "audio_requested ((default_args ''v.mp4'')\<lparr>arg_extract_subtitles := True\<rparr>) \<and>
   input_is_file (good_world\<lparr>probe := Some [Some ''video'']\<rparr>) \<and>
   lacks_audio (good_world\<lparr>probe := Some [Some ''video'']\<rparr>) \<and>
   main ((default_args ''v.mp4'')\<lparr>arg_extract_subtitles := True\<rparr>)
        (good_world\<lparr>probe := Some [Some ''video'']\<rparr>) =
     ([Probed, Print MsgNoAudioSubtitles], Ret ()) \<and>
   exit_status (main ((default_args ''v.mp4'')\<lparr>arg_extract_subtitles := True\<rparr>)
                     (good_world\<lparr>probe := Some [Some ''video'']\<rparr>)) = 0"
  by (simp add: example_eval exit_status_def main_def seq_def create_assets_directory_def
      makedirs_unless_def check_file_exists_def main_extract_def say_def extract_subtitles_def
      has_audio_stream_def main_audio_to_video_def main_with_subtitles_def)

end
